theory Spec2Isabelle
  imports Complex_Main "HOL-Library.Multiset" "HOL-Library.Signed_Division" "HOL-Library.Log_Nat"
begin

unbundle bit_operations_syntax

section \<open>Machine integers and memory\<close>

text \<open>
  The program computes with \<open>int\<close> (32 bits) and \<open>long\<close> (64 bits). Values are modelled as
  mathematical integers. Signed overflow is undefined in C++; the model gives an arithmetic
  result that can leave the range the two's-complement wrap-around of its width, which is
  what the compiled program computes, and the theorems state the ranges they rely on.
  \<open>XOR\<close> on in-range integers stays in range and agrees with the machine operation.
\<close>

definition int32 :: "int \<Rightarrow> int" where
  "int32 x = signed_take_bit 31 x"

definition int64 :: "int \<Rightarrow> int" where
  "int64 x = signed_take_bit 63 x"

text \<open>\<open>constexpr int mask = 1454213\<close>\<close>

definition mask_int :: int where
  "mask_int = 1454213"

text \<open>
  What can go wrong at run time: a store or load through the null pointer, a store or load
  outside the allocated block, an integer division that traps.
\<close>

datatype fault = NullPointer | OutOfBounds | DivideError

text \<open>
  A block of \<open>int\<close> cells as returned by \<open>aligned_alloc\<close>; \<open>None\<close> is the null pointer a
  failed allocation returns. Offsets are in elements, relative to \<open>memory_begin\<close>.
\<close>

type_synonym block = "int list"
type_synonym pointer = "block option"

definition store :: "pointer \<Rightarrow> int \<Rightarrow> int \<Rightarrow> fault + pointer" where
  "store p off v =
     (case p of
        None \<Rightarrow> Inl NullPointer
      | Some cells \<Rightarrow>
          if 0 \<le> off \<and> off < int (length cells)
          then Inr (Some (cells[nat off := v]))
          else Inl OutOfBounds)"

definition load :: "pointer \<Rightarrow> int \<Rightarrow> fault + int" where
  "load p off =
     (case p of
        None \<Rightarrow> Inl NullPointer
      | Some cells \<Rightarrow>
          if 0 \<le> off \<and> off < int (length cells)
          then Inr (cells ! nat off)
          else Inl OutOfBounds)"

section \<open>Cycle Generator\<close>

text \<open>
  The second loop of \<open>create_cycle\<close>: for each entry \<open>indices[j]\<close>, write
  \<open>(indices[j] * stride) ^ mask\<close> at \<open>memory_begin + cur * stride\<close> and move \<open>cur\<close> there.
\<close>

fun link_cycle :: "pointer \<Rightarrow> int \<Rightarrow> int \<Rightarrow> int list \<Rightarrow> fault + pointer" where
  "link_cycle mem stride cur [] = Inr mem"
| "link_cycle mem stride cur (nxt # rest) =
     (case store mem (int32 (cur * stride)) (int32 (nxt * stride) XOR mask_int) of
        Inl e \<Rightarrow> Inl e
      | Inr mem' \<Rightarrow> link_cycle mem' stride nxt rest)"

text \<open>
  \<open>create_cycle(memory_begin, length, stride)\<close>. The outcome of \<open>random_shuffle\<close> is a
  parameter: the function that rearranges the vector \<open>1, ..., length - 1\<close>. The loop runs
  over \<open>j = 0, ..., length - 1\<close>, which are all entries of \<open>indices\<close> when \<open>length \<ge> 1\<close>
  and none otherwise.
\<close>

definition create_cycle ::
  "(int list \<Rightarrow> int list) \<Rightarrow> pointer \<Rightarrow> int \<Rightarrow> int \<Rightarrow> fault + pointer" where
  "create_cycle random_shuffle memory_begin len stride =
     (let indices = random_shuffle [1..len - 1] @ [0]
      in link_cycle memory_begin stride 0 (take (nat len) indices))"

section \<open>Traversal Probe\<close>

text \<open>
  The loop of \<open>traverse\<close> with \<open>n\<close> iterations left: \<open>cur = *(memory_begin + cur) ^ mask;
  sum += cur\<close>. The accumulator is an \<open>int\<close>; its additions wrap around.
\<close>

fun traverse_loop :: "nat \<Rightarrow> pointer \<Rightarrow> int \<Rightarrow> int \<Rightarrow> fault + int" where
  "traverse_loop 0 mem cur acc = Inr acc"
| "traverse_loop (Suc n) mem cur acc =
     (case load mem cur of
        Inl e \<Rightarrow> Inl e
      | Inr v \<Rightarrow> traverse_loop n mem (v XOR mask_int) (int32 (acc + (v XOR mask_int))))"

definition traverse :: "int \<Rightarrow> pointer \<Rightarrow> int \<Rightarrow> fault + int" where
  "traverse len memory_begin acc = traverse_loop (nat len) memory_begin 0 acc"

text \<open>
  The logical successor of slot \<open>k\<close>: the stored value at offset \<open>k * stride\<close>, decoded by
  XOR with the mask and division by the stride; \<open>follow\<close> lists the slots reached in the
  next \<open>t\<close> steps.
\<close>

definition next_slot :: "pointer \<Rightarrow> int \<Rightarrow> int \<Rightarrow> fault + int" where
  "next_slot mem stride k =
     (case load mem (k * stride) of
        Inl e \<Rightarrow> Inl e
      | Inr v \<Rightarrow> Inr ((v XOR mask_int) sdiv stride))"

fun follow :: "pointer \<Rightarrow> int \<Rightarrow> nat \<Rightarrow> int \<Rightarrow> fault + int list" where
  "follow mem stride 0 k = Inr []"
| "follow mem stride (Suc t) k =
     (case next_slot mem stride k of
        Inl e \<Rightarrow> Inl e
      | Inr k' \<Rightarrow>
          (case follow mem stride t k' of
             Inl e \<Rightarrow> Inl e
           | Inr ks \<Rightarrow> Inr (k' # ks)))"

section \<open>Measurement Harness\<close>

text \<open>
  \<open>/\<close> on \<open>int\<close> truncates toward zero; a zero divisor and \<open>INT_MIN / -1\<close> trap.
\<close>

definition int_div :: "int \<Rightarrow> int \<Rightarrow> fault + int" where
  "int_div a b =
     (if b = 0 \<or> (a = - (2 ^ 31) \<and> b = - 1) then Inl DivideError else Inr (a sdiv b))"

text \<open>
  What the environment contributes to one probe of a \<open>(length, stride)\<close> pair: whether
  \<open>aligned_alloc\<close> succeeds, the contents of the fresh block, the rearrangement chosen by
  \<open>random_shuffle\<close>, and the tick count \<open>(end - begin).count()\<close> read off the clock.
\<close>

record probe_env =
  alloc_ok :: bool
  fresh :: "nat \<Rightarrow> int"
  shuffle :: "int list \<Rightarrow> int list"
  elapsed :: int

text \<open>
  \<open>aligned_alloc(pagesize, sizeof(int) * length)\<close>: a block of \<open>length\<close> cells, or the null
  pointer. The byte count is a \<open>size_t\<close>, so a negative \<open>length\<close> asks for more than the
  address space and fails.
\<close>

definition aligned_alloc :: "probe_env \<Rightarrow> int \<Rightarrow> pointer" where
  "aligned_alloc w len =
     (if alloc_ok w \<and> 0 \<le> len then Some (map (fresh w) [0..<nat len]) else None)"

definition measure_time :: "probe_env \<Rightarrow> int \<Rightarrow> pointer \<Rightarrow> int \<Rightarrow> fault + (int \<times> int)" where
  "measure_time w active_positions memory_begin acc =
     (case traverse (int32 (16 * active_positions)) memory_begin acc of
        Inl e \<Rightarrow> Inl e
      | Inr acc' \<Rightarrow> Inr (elapsed w, acc'))"

text \<open>
  The body of the inner loop of \<open>measure\<close> for the pair at indices \<open>i\<close>, \<open>j\<close>. The callback
  threads a state \<open>s\<close>; the state reached so far is returned also when the body faults.
  The result of \<open>aligned_alloc\<close> is handed to \<open>create_cycle\<close> unchecked, as in the source.
\<close>

definition measure_pair ::
  "probe_env \<Rightarrow> (nat \<Rightarrow> nat \<Rightarrow> int \<Rightarrow> 's \<Rightarrow> 's) \<Rightarrow> nat \<Rightarrow> nat \<Rightarrow> int \<Rightarrow> int \<Rightarrow> 's \<Rightarrow> int
     \<Rightarrow> 's \<times> (fault + int)" where
  "measure_pair w on_result i j len gap s acc =
     (case int_div len gap of
        Inl e \<Rightarrow> (s, Inl e)
      | Inr active_positions \<Rightarrow>
          if active_positions \<le> 4 then (s, Inr acc)
          else
            (case create_cycle (shuffle w) (aligned_alloc w len) active_positions gap of
               Inl e \<Rightarrow> (s, Inl e)
             | Inr mem \<Rightarrow>
                 (case traverse (int32 (32 * active_positions)) mem acc of
                    Inl e \<Rightarrow> (s, Inl e)
                  | Inr acc1 \<Rightarrow>
                      (case measure_time w active_positions mem acc1 of
                         Inl e \<Rightarrow> (s, Inl e)
                       | Inr (time, acc2) \<Rightarrow>
                           (on_result i j (time sdiv active_positions) s, Inr acc2)))))"

fun measure_strides ::
  "(nat \<Rightarrow> probe_env) \<Rightarrow> (nat \<Rightarrow> nat \<Rightarrow> int \<Rightarrow> 's \<Rightarrow> 's) \<Rightarrow> nat \<Rightarrow> int \<Rightarrow> nat \<Rightarrow> int list \<Rightarrow> 's \<Rightarrow> int
     \<Rightarrow> 's \<times> (fault + int)" where
  "measure_strides w on_result i len j [] s acc = (s, Inr acc)"
| "measure_strides w on_result i len j (gap # gaps) s acc =
     (case measure_pair (w j) on_result i j len gap s acc of
        (s', Inl e) \<Rightarrow> (s', Inl e)
      | (s', Inr acc') \<Rightarrow> measure_strides w on_result i len (Suc j) gaps s' acc')"

fun measure_lengths ::
  "(nat \<Rightarrow> nat \<Rightarrow> probe_env) \<Rightarrow> (nat \<Rightarrow> nat \<Rightarrow> int \<Rightarrow> 's \<Rightarrow> 's) \<Rightarrow> int list \<Rightarrow> nat \<Rightarrow> int list \<Rightarrow> 's \<Rightarrow> int
     \<Rightarrow> 's \<times> (fault + int)" where
  "measure_lengths w on_result stride_sizes i [] s acc = (s, Inr acc)"
| "measure_lengths w on_result stride_sizes i (len # lens) s acc =
     (case measure_strides (w i) on_result i len 0 stride_sizes s acc of
        (s', Inl e) \<Rightarrow> (s', Inl e)
      | (s', Inr acc') \<Rightarrow> measure_lengths w on_result stride_sizes (Suc i) lens s' acc')"

text \<open>
  \<open>measure(stride_sizes, length_sizes, on_result)\<close>, with the environment of the pair at
  \<open>(i, j)\<close> given by \<open>w i j\<close>. It returns the callback's state and the accumulator that is
  sunk to \<open>dev_null\<close>, or the fault that ended the run.
\<close>

definition measure_all ::
  "(nat \<Rightarrow> nat \<Rightarrow> probe_env) \<Rightarrow> int list \<Rightarrow> int list \<Rightarrow> (nat \<Rightarrow> nat \<Rightarrow> int \<Rightarrow> 's \<Rightarrow> 's) \<Rightarrow> 's
     \<Rightarrow> 's \<times> (fault + int)" where
  "measure_all w stride_sizes length_sizes on_result s =
     measure_lengths w on_result stride_sizes 0 length_sizes s 0"

text \<open>
  Whether the loop body goes past its guard for a pair: \<open>active_positions = length / gap\<close>
  is computed and is not \<open><= 4\<close>.
\<close>

definition probed :: "int \<Rightarrow> int \<Rightarrow> bool" where
  "probed len gap = (case int_div len gap of Inl e \<Rightarrow> False | Inr active_positions \<Rightarrow> 4 < active_positions)"

text \<open>A callback that records its invocations in order.\<close>

definition record_call :: "nat \<Rightarrow> nat \<Rightarrow> int \<Rightarrow> (nat \<times> nat \<times> int) list \<Rightarrow> (nat \<times> nat \<times> int) list" where
  "record_call i j t calls = calls @ [(i, j, t)]"

text \<open>
  An environment in which the probe can run: the allocation succeeds and \<open>random_shuffle\<close>
  returns a rearrangement of its argument.
\<close>

definition well_behaved :: "probe_env \<Rightarrow> bool" where
  "well_behaved w \<longleftrightarrow> alloc_ok w \<and> (\<forall>xs. mset (shuffle w xs) = mset xs)"

text \<open>
  Two environments for concrete runs: one in which every allocation succeeds, the shuffle
  reverses the vector and every timed traversal takes 1000 ticks, and one that differs only
  in that every allocation fails.
\<close>

definition env0 :: probe_env where
  "env0 = \<lparr>alloc_ok = True, fresh = (\<lambda>k. 0), shuffle = rev, elapsed = 1000\<rparr>"

definition env_no_memory :: probe_env where
  "env_no_memory = \<lparr>alloc_ok = False, fresh = (\<lambda>k. 0), shuffle = rev, elapsed = 1000\<rparr>"

section \<open>Trial Aggregator\<close>

text \<open>
  A \<open>double\<close> is NaN, an infinity or a finite value, the finite values being the reals
  that binary64 represents. The sign of a NaN and of a zero is not modelled.
\<close>

datatype double = NaN | PosInf | NegInf | Fin real

text \<open>
  Rounding to binary64. \<open>exponent x\<close> is the integer \<open>e\<close> with \<open>2^e \<le> |x| < 2^(e + 1)\<close>, for
  \<open>x\<close> other than 0; \<open>round_even\<close> rounds to the nearest integer, a tie to the even one.
  \<open>nearest x\<close> is \<open>x\<close> rounded to a multiple of the unit in the last place of its binade
  (53 significant bits, the unit no smaller than \<open>2^-1074\<close>), the IEEE 754 default rounding
  before the test for overflow; \<open>to_double\<close> adds that test.
\<close>

definition pow2 :: "int \<Rightarrow> real" where
  "pow2 e = (if 0 \<le> e then 2 ^ nat e else 1 / 2 ^ nat (- e))"

definition exponent :: "real \<Rightarrow> int" where
  "exponent x =
     (if 1 \<le> \<bar>x\<bar> then bitlen \<lfloor>\<bar>x\<bar>\<rfloor> - 1 else - bitlen (\<lceil>1 / \<bar>x\<bar>\<rceil> - 1))"

definition round_even :: "real \<Rightarrow> int" where
  "round_even q =
     (let f = \<lfloor>q\<rfloor>; d = q - of_int f
      in if d < 1 / 2 then f
         else if 1 / 2 < d then f + 1
         else if even f then f else f + 1)"

definition nearest :: "real \<Rightarrow> real" where
  "nearest x =
     (if x = 0 then 0
      else let u = pow2 (max (exponent x) (- 1022) - 52)
           in of_int (round_even (x / u)) * u)"

definition to_double :: "real \<Rightarrow> double" where
  "to_double x =
     (let r = nearest x
      in if 2 ^ 1024 \<le> r then PosInf
         else if r \<le> - (2 ^ 1024) then NegInf
         else Fin r)"

text \<open>
  The quotient of two finite doubles, rounded; \<open>0 / 0\<close> is NaN and another division by zero
  an infinity.
\<close>

definition double_div :: "real \<Rightarrow> real \<Rightarrow> double" where
  "double_div a b =
     (if b \<noteq> 0 then to_double (a / b)
      else if a = 0 then NaN
      else if 0 < a then PosInf else NegInf)"

text \<open>
  Multiplication by a positive literal \<open>c\<close>, which the compiler rounds to binary64, with
  the product rounded; and the comparison \<open>>\<close>.
\<close>

fun double_times :: "double \<Rightarrow> real \<Rightarrow> double" where
  "double_times (Fin a) c = to_double (a * nearest c)"
| "double_times d c = d"

fun double_gt :: "double \<Rightarrow> double \<Rightarrow> bool" where
  "double_gt (Fin a) (Fin b) = (b < a)"
| "double_gt NaN d = False"
| "double_gt d NaN = False"
| "double_gt PosInf d = (d \<noteq> PosInf)"
| "double_gt d NegInf = (d \<noteq> NegInf)"
| "double_gt d d' = False"

text \<open>
  \<open>average(values)\<close> returns the aggregate and leaves the caller's vector as the second
  component. \<open>end\<close> is the product of \<open>values.size()\<close>, converted to \<open>double\<close>, and the
  literal \<open>0.8\<close>, truncated to an integer; the sum is a \<open>long\<close>; the result is the sum
  converted to \<open>double\<close>, divided by \<open>end - begin\<close> converted to \<open>double\<close>.
\<close>

definition average :: "int list \<Rightarrow> double \<times> int list" where
  "average values =
     (if values = [] then (NaN, values)
      else
        let sorted_values = sort values;
            begin_idx = (0::int);
            end_idx = \<lfloor>nearest (nearest (real (length values)) * nearest 0.8)\<rfloor>;
            total = fold (\<lambda>v t. int64 (t + v)) (take (nat end_idx) sorted_values) 0
        in (double_div (nearest (of_int total)) (nearest (of_int (end_idx - begin_idx))),
            sorted_values))"

text \<open>
  \<open>push_back\<close> on \<open>results[i][j]\<close>, the callback \<open>main\<close> passes to \<open>measure\<close>, and the loop
  that calls \<open>measure\<close> \<open>n\<close> more times, numbering the calls from \<open>t\<close>.
\<close>

definition push_result :: "nat \<Rightarrow> nat \<Rightarrow> int \<Rightarrow> int list list list \<Rightarrow> int list list list" where
  "push_result i j time results = results[i := (results ! i)[j := results ! i ! j @ [time]]]"

fun trials ::
  "nat \<Rightarrow> nat \<Rightarrow> (nat \<Rightarrow> nat \<Rightarrow> nat \<Rightarrow> probe_env) \<Rightarrow> int list \<Rightarrow> int list \<Rightarrow> int list list list
     \<Rightarrow> int list list list \<times> fault option" where
  "trials 0 t world stride_sizes length_sizes results = (results, None)"
| "trials (Suc n) t world stride_sizes length_sizes results =
     (case measure_all (world t) stride_sizes length_sizes push_result results of
        (results', Inl e) \<Rightarrow> (results', Some e)
      | (results', Inr acc) \<Rightarrow> trials n (Suc t) world stride_sizes length_sizes results')"

section \<open>Breakpoint Heuristics\<close>

text \<open>\<open>av_result[i][j]\<close>; an index outside either vector is a fault.\<close>

definition cell :: "double list list \<Rightarrow> int \<Rightarrow> int \<Rightarrow> fault + double" where
  "cell av_result i j =
     (if 0 \<le> i \<and> i < int (length av_result) \<and> 0 \<le> j \<and> j < int (length (av_result ! nat i))
      then Inr (av_result ! nat i ! nat j)
      else Inl OutOfBounds)"

function find_cache_length_from :: "nat \<Rightarrow> nat \<Rightarrow> double list list \<Rightarrow> fault + int" where
  "find_cache_length_from i lengths av_result =
     (if i < lengths then
        (case cell av_result (int i) 0 of
           Inl e \<Rightarrow> Inl e
         | Inr a \<Rightarrow>
             (case cell av_result (int i - 1) 0 of
                Inl e \<Rightarrow> Inl e
              | Inr b \<Rightarrow>
                  if double_gt a (double_times b 1.2) then Inr (int i - 1)
                  else find_cache_length_from (Suc i) lengths av_result))
      else Inr (- 1))"
  by pat_completeness auto
termination
  by (relation "measure (\<lambda>(i, lengths, av_result). lengths - i)") auto

declare find_cache_length_from.simps [simp del]

definition find_cache_length :: "nat \<Rightarrow> double list list \<Rightarrow> fault + int" where
  "find_cache_length lengths av_result = find_cache_length_from 1 lengths av_result"

function find_cache_line_length_from :: "nat \<Rightarrow> int \<Rightarrow> nat \<Rightarrow> double list list \<Rightarrow> fault + int" where
  "find_cache_line_length_from i cache_length_idx strides av_result =
     (if i < strides then
        (case cell av_result (cache_length_idx + 1) (int i) of
           Inl e \<Rightarrow> Inl e
         | Inr a \<Rightarrow>
             (case cell av_result (cache_length_idx + 1) (int i - 1) of
                Inl e \<Rightarrow> Inl e
              | Inr b \<Rightarrow>
                  if double_gt a (double_times b 1.1) then Inr (int i)
                  else find_cache_line_length_from (Suc i) cache_length_idx strides av_result))
      else Inr (- 1))"
  by pat_completeness auto
termination
  by (relation "measure (\<lambda>(i, cache_length_idx, strides, av_result). strides - i)") auto

declare find_cache_line_length_from.simps [simp del]

definition find_cache_line_length :: "int \<Rightarrow> nat \<Rightarrow> double list list \<Rightarrow> fault + int" where
  "find_cache_line_length cache_length_idx strides av_result =
     find_cache_line_length_from 1 cache_length_idx strides av_result"

text \<open>
  The two threshold tests as predicates on the grid: a capacity jump between rows \<open>i - 1\<close>
  and \<open>i\<close> at the smallest stride, and a line-size jump between columns \<open>i - 1\<close> and \<open>i\<close>
  of one row.
\<close>

definition capacity_jump :: "double list list \<Rightarrow> nat \<Rightarrow> bool" where
  "capacity_jump av_result i =
     double_gt (av_result ! i ! 0) (double_times (av_result ! (i - 1) ! 0) 1.2)"

definition line_jump :: "double list \<Rightarrow> nat \<Rightarrow> bool" where
  "line_jump row i = double_gt (row ! i) (double_times (row ! (i - 1)) 1.1)"

section \<open>The program\<close>

text \<open>
  \<open>while (v.back() <= limit) v.push_back(v.back() * 2)\<close>. The loop need not end for every
  start vector, so not returning is the value \<open>None\<close>.
\<close>

partial_function (option) push_doubles :: "int \<Rightarrow> int list \<Rightarrow> int list option" where
  "push_doubles limit v =
     (if last v \<le> limit then push_doubles limit (v @ [int32 (last v * 2)]) else Some v)"

declare push_doubles.simps [code]

definition stride_sizes :: "int list option" where
  "stride_sizes = push_doubles 128 [1]"

definition length_sizes :: "int list option" where
  "length_sizes = push_doubles (64 * 1024) [256]"

text \<open>
  The collection phase of \<open>main\<close>: an empty sample vector per \<open>(length, stride)\<close> cell, then
  100 calls of \<open>measure\<close>.
\<close>

definition collect ::
  "(nat \<Rightarrow> nat \<Rightarrow> nat \<Rightarrow> probe_env) \<Rightarrow> int list \<Rightarrow> int list \<Rightarrow> int list list list \<times> fault option" where
  "collect world strides_v lengths_v =
     trials 100 0 world strides_v lengths_v
       (replicate (length lengths_v) (replicate (length strides_v) []))"

text \<open>\<open>av_result[i][j] = average(results[i][j])\<close> for every cell.\<close>

definition aggregate :: "int list list list \<Rightarrow> double list list" where
  "aggregate results = map (map (\<lambda>values. fst (average values))) results"

text \<open>
  The text of a table cell in \<open>print_table\<close>, from \<open>str = to_string(av_result[j][i])\<close>: the
  prefix up to one character after the dot, or the whole string when there is no dot.
  \<open>to_string\<close> prints with \<open>%f\<close>; the rendering of a finite value is a parameter, and
  \<open>NaN\<close> is printed as for \<open>quiet_NaN()\<close>.
\<close>

definition to_string :: "(real \<Rightarrow> string) \<Rightarrow> double \<Rightarrow> string" where
  "to_string fmt d =
     (case d of NaN \<Rightarrow> ''nan'' | PosInf \<Rightarrow> ''inf'' | NegInf \<Rightarrow> ''-inf'' | Fin r \<Rightarrow> fmt r)"

definition cell_text :: "string \<Rightarrow> string" where
  "cell_text str =
     (let dot_idx =
            (if CHR ''.'' \<in> set str then int (length (takeWhile (\<lambda>c. c \<noteq> CHR ''.'') str))
             else int (length str) - 2)
      in take (nat (dot_idx + 2)) str)"

text \<open>The lines \<open>main\<close> prints after the table.\<close>

datatype report_line =
    CacheLengthNotFound
  | CacheLength int
  | CacheLineLengthNotFound
  | CacheLineLength int
  | AssociativityNotImplemented

text \<open>\<open>v[idx]\<close> on a vector of \<open>int\<close>.\<close>

definition at_index :: "int list \<Rightarrow> int \<Rightarrow> fault + int" where
  "at_index v idx =
     (if 0 \<le> idx \<and> idx < int (length v) then Inr (v ! nat idx) else Inl OutOfBounds)"

text \<open>
  The end of \<open>main\<close>: both scans and the lines they produce. \<open>find_cache_length\<close> is called
  with \<open>strides\<close>, the number of stride sizes, as in the source; \<open>find_cache_line_length\<close>
  is called with whatever index the first scan returned.
\<close>

definition report :: "int list \<Rightarrow> int list \<Rightarrow> double list list \<Rightarrow> fault + report_line list" where
  "report strides_v lengths_v av_result =
     (let strides = length strides_v in
      case find_cache_length strides av_result of
        Inl e \<Rightarrow> Inl e
      | Inr cache_length_idx \<Rightarrow>
          (case (if cache_length_idx = - 1 then Inr CacheLengthNotFound
                 else (case at_index lengths_v cache_length_idx of
                         Inl e \<Rightarrow> Inl e
                       | Inr l \<Rightarrow> Inr (CacheLength (l * 4 div 1024)))) of
             Inl e \<Rightarrow> Inl e
           | Inr line1 \<Rightarrow>
               (case find_cache_line_length cache_length_idx strides av_result of
                  Inl e \<Rightarrow> Inl e
                | Inr cache_line_length_idx \<Rightarrow>
                    (case (if cache_line_length_idx = - 1 then Inr CacheLineLengthNotFound
                           else (case at_index strides_v cache_line_length_idx of
                                   Inl e \<Rightarrow> Inl e
                                 | Inr g \<Rightarrow> Inr (CacheLineLength (g * 4)))) of
                       Inl e \<Rightarrow> Inl e
                     | Inr line2 \<Rightarrow> Inr [line1, line2, AssociativityNotImplemented]))))"

text \<open>
  \<open>main\<close>: the grid, the collection phase, the aggregation and the report. The result is
  the aggregated table that \<open>print_table\<close> is given together with the lines printed after
  it. \<open>None\<close> stands for a grid loop that does not end; a fault ends the program.
\<close>

definition main_program ::
  "(nat \<Rightarrow> nat \<Rightarrow> nat \<Rightarrow> probe_env) \<Rightarrow> (fault + double list list \<times> report_line list) option" where
  "main_program world =
     (case stride_sizes of
        None \<Rightarrow> None
      | Some strides_v \<Rightarrow>
          (case length_sizes of
             None \<Rightarrow> None
           | Some lengths_v \<Rightarrow>
               (case collect world strides_v lengths_v of
                  (results, Some e) \<Rightarrow> Some (Inl e)
                | (results, None) \<Rightarrow>
                    (let av_result = aggregate results in
                     case report strides_v lengths_v av_result of
                       Inl e \<Rightarrow> Some (Inl e)
                     | Inr ls \<Rightarrow> Some (Inr (av_result, ls))))))"

text \<open>
  The grid of \<open>main\<close>, and environments on it in which every allocation succeeds, the
  shuffle reverses the vector, and the timed traversal of the pair at \<open>(i, j)\<close> takes
  \<open>latency i j\<close> ticks per active position in every trial. \<open>grid_table latency\<close> is the
  aggregated table of such a run: the latency in the cells that are probed, NaN in those
  that are skipped.
\<close>

definition grid_strides :: "int list" where
  "grid_strides = [1, 2, 4, 8, 16, 32, 64, 128, 256]"

definition grid_lengths :: "int list" where
  "grid_lengths = [256, 512, 1024, 2048, 4096, 8192, 16384, 32768, 65536, 131072]"

definition steady_world :: "(nat \<Rightarrow> nat \<Rightarrow> int) \<Rightarrow> nat \<Rightarrow> nat \<Rightarrow> nat \<Rightarrow> probe_env" where
  "steady_world latency t i j =
     \<lparr>alloc_ok = True, fresh = (\<lambda>k. 0), shuffle = rev,
      elapsed = latency i j * (grid_lengths ! i div grid_strides ! j)\<rparr>"

definition grid_table :: "(nat \<Rightarrow> nat \<Rightarrow> int) \<Rightarrow> double list list" where
  "grid_table latency =
     map (\<lambda>i. map (\<lambda>j. if probed (grid_lengths ! i) (grid_strides ! j)
                        then Fin (of_int (latency i j)) else NaN)
                 [0..<length grid_strides])
         [0..<length grid_lengths]"

text \<open>
  Two latency profiles. With \<open>late_jump\<close> the latency is 1 tick for the nine lengths up to
  65536 and 2 ticks for the tenth, 131072, at every stride. With \<open>flat_capacity\<close> the
  latency at the smallest stride is 1 tick for all lengths, and the smallest length takes
  2 ticks at every stride but the smallest.
\<close>

definition late_jump :: "nat \<Rightarrow> nat \<Rightarrow> int" where
  "late_jump i j = (if i = 9 then 2 else 1)"

definition flat_capacity :: "nat \<Rightarrow> nat \<Rightarrow> int" where
  "flat_capacity i j = (if i = 0 \<and> 1 \<le> j then 2 else 1)"

definition late_jump_grid :: "double list list" where
  "late_jump_grid = grid_table late_jump"

definition flat_capacity_grid :: "double list list" where
  "flat_capacity_grid = grid_table flat_capacity"

section \<open>Properties of the Cycle Generator\<close>

lemma load_Inr_iff:
  "load (Some cells) off = Inr v \<longleftrightarrow> 0 \<le> off \<and> off < int (length cells) \<and> v = cells ! nat off"
  by (auto simp: load_def)

lemma int32_id: "0 \<le> x \<Longrightarrow> x < 2 ^ 31 \<Longrightarrow> int32 x = x"
  by (simp add: int32_def signed_take_bit_int_eq_self)

lemma xor_mask_cancel: "(x XOR m) XOR m = (x::int)"
  by (simp add: xor.assoc)

lemma slot_offset_inj:
  assumes "1 \<le> stride" "0 \<le> a" "0 \<le> b" "nat (a * stride) = nat (b * stride)"
  shows "a = (b::int)"
proof -
  have "0 \<le> a * stride" "0 \<le> b * stride" using assms by simp_all
  then have "a * stride = b * stride" using assms(4) by linarith
  then show ?thesis using assms(1) by simp
qed

lemma link_cycle_spec:
  assumes "1 \<le> stride"
    and "\<forall>k \<in> set (cur # ks). 0 \<le> k \<and> k * stride < int (length cells)"
    and "\<forall>k \<in> set (cur # ks). k * stride < 2 ^ 31"
    and "distinct (butlast (cur # ks))"
  shows "\<exists>cells'. link_cycle (Some cells) stride cur ks = Inr (Some cells')
           \<and> length cells' = length cells
           \<and> (\<forall>j < length ks. cells' ! nat ((cur # ks) ! j * stride) = (ks ! j * stride) XOR mask_int)
           \<and> (\<forall>off. off \<notin> (\<lambda>k. nat (k * stride)) ` set (butlast (cur # ks)) \<longrightarrow> cells' ! off = cells ! off)"
  using assms
proof (induction ks arbitrary: cur cells)
  case Nil
  then show ?case by simp
next
  case (Cons nxt rest)
  let ?c1 = "cells[nat (cur * stride) := (nxt * stride) XOR mask_int]"
  have cur_ok: "0 \<le> cur" "cur * stride < int (length cells)"
    using Cons.prems(2) by simp_all
  have nxt_ok: "0 \<le> nxt" "nxt * stride < int (length cells)"
    using Cons.prems(2) by simp_all
  have cur_nn: "0 \<le> cur * stride" using cur_ok Cons.prems(1) by simp
  have nxt_nn: "0 \<le> nxt * stride" using nxt_ok Cons.prems(1) by simp
  have w1: "int32 (cur * stride) = cur * stride"
    using cur_nn Cons.prems(3) by (intro int32_id) simp_all
  have w2: "int32 (nxt * stride) = nxt * stride"
    using nxt_nn Cons.prems(3) by (intro int32_id) simp_all
  have st: "store (Some cells) (int32 (cur * stride)) (int32 (nxt * stride) XOR mask_int) = Inr (Some ?c1)"
    using cur_nn cur_ok by (simp add: store_def w1 w2)
  have d: "distinct (butlast (nxt # rest))" "cur \<notin> set (butlast (nxt # rest))"
    using Cons.prems(4) by simp_all
  have r: "\<forall>k \<in> set (nxt # rest). 0 \<le> k \<and> k * stride < int (length ?c1)"
    using Cons.prems(2) by simp
  have l: "\<forall>k \<in> set (nxt # rest). k * stride < 2 ^ 31"
    using Cons.prems(3) by simp
  from Cons.IH [OF Cons.prems(1) r l d(1)]
  obtain cells' where
    lk: "link_cycle (Some ?c1) stride nxt rest = Inr (Some cells')"
    and len: "length cells' = length ?c1"
    and wr: "\<forall>j < length rest. cells' ! nat ((nxt # rest) ! j * stride) = (rest ! j * stride) XOR mask_int"
    and un: "\<forall>off. off \<notin> (\<lambda>k. nat (k * stride)) ` set (butlast (nxt # rest)) \<longrightarrow> cells' ! off = ?c1 ! off"
    by blast
  have notin: "nat (cur * stride) \<notin> (\<lambda>k. nat (k * stride)) ` set (butlast (nxt # rest))"
  proof
    assume "nat (cur * stride) \<in> (\<lambda>k. nat (k * stride)) ` set (butlast (nxt # rest))"
    then obtain k where k: "k \<in> set (butlast (nxt # rest))" "nat (cur * stride) = nat (k * stride)"
      by blast
    from k(1) have "k \<in> set (nxt # rest)" by (rule in_set_butlastD)
    then have "0 \<le> k" using Cons.prems(2) by auto
    from slot_offset_inj [OF Cons.prems(1) cur_ok(1) this k(2)] have "cur = k" .
    then show False using d(2) k(1) by simp
  qed
  have first: "cells' ! nat (cur * stride) = (nxt * stride) XOR mask_int"
    using un notin cur_nn cur_ok by simp
  have A: "link_cycle (Some cells) stride cur (nxt # rest) = Inr (Some cells')"
    using st lk by simp
  have B: "length cells' = length cells" using len by simp
  have C: "\<forall>j < length (nxt # rest). cells' ! nat ((cur # nxt # rest) ! j * stride) = ((nxt # rest) ! j * stride) XOR mask_int"
  proof (intro allI impI)
    fix j assume j: "j < length (nxt # rest)"
    show "cells' ! nat ((cur # nxt # rest) ! j * stride) = ((nxt # rest) ! j * stride) XOR mask_int"
    proof (cases j)
      case 0
      then show ?thesis using first by simp
    next
      case (Suc i)
      then have "i < length rest" using j by simp
      then show ?thesis using wr Suc by simp
    qed
  qed
  have D: "\<forall>off. off \<notin> (\<lambda>k. nat (k * stride)) ` set (butlast (cur # nxt # rest)) \<longrightarrow> cells' ! off = cells ! off"
  proof (intro allI impI)
    fix off assume o: "off \<notin> (\<lambda>k. nat (k * stride)) ` set (butlast (cur # nxt # rest))"
    then have "off \<noteq> nat (cur * stride)" "off \<notin> (\<lambda>k. nat (k * stride)) ` set (butlast (nxt # rest))"
      by auto
    then show "cells' ! off = cells ! off" using un by simp
  qed
  from A B C D show ?case by blast
qed


lemma sdiv_mult_cancel: "1 \<le> s \<Longrightarrow> 0 \<le> a \<Longrightarrow> (a * s) sdiv s = (a::int)"
  by (cases "a = 0") (simp_all add: signed_divide_int_def sgn_mult abs_mult)

lemma follow_chain:
  "\<forall>j < length ks. next_slot mem stride ((cur # ks) ! j) = Inr (ks ! j)
     \<Longrightarrow> follow mem stride (length ks) cur = Inr ks"
proof (induction ks arbitrary: cur)
  case Nil
  then show ?case by simp
next
  case (Cons k rest)
  have h: "next_slot mem stride cur = Inr k" using Cons.prems by auto
  have "\<forall>j < length rest. next_slot mem stride ((k # rest) ! j) = Inr (rest ! j)"
    using Cons.prems by auto
  then have "follow mem stride (length rest) k = Inr rest" by (rule Cons.IH)
  then show ?case using h by simp
qed

lemma shuffled_indices:
  assumes "mset p = mset [1..n - 1]"
  shows "distinct p" "set p = {1..n - 1}" "length p = nat (n - 1)"
proof -
  show "distinct p" using assms by (metis distinct_upto mset_eq_imp_distinct_iff)
  show "set p = {1..n - 1}" using assms by (metis mset_eq_setD set_upto)
  show "length p = nat (n - 1)" using assms by (metis mset_eq_length length_upto diff_add_cancel add.commute add_diff_cancel)
qed


lemma create_cycle_links:
  assumes n: "1 \<le> n" and st: "1 \<le> stride"
    and room: "n * stride \<le> int (length cells)"
    and rng: "(n - 1) * stride < 2 ^ 31"
    and perm: "mset (random_shuffle [1..n - 1]) = mset [1..n - 1]"
  shows "\<exists>cells'. create_cycle random_shuffle (Some cells) n stride = Inr (Some cells')
           \<and> length cells' = length cells
           \<and> (\<forall>j < nat n. cells' ! nat ((0 # random_shuffle [1..n - 1]) ! j * stride)
                  = ((random_shuffle [1..n - 1] @ [0]) ! j * stride) XOR mask_int)
           \<and> (\<forall>off. off \<notin> (\<lambda>k. nat (k * stride)) ` {0..n - 1} \<longrightarrow> cells' ! off = cells ! off)"
proof -
  let ?p = "random_shuffle [1..n - 1]"
  note p = shuffled_indices [OF perm]
  have len: "length (?p @ [0]) = nat n" using p(3) n by simp
  have cc: "create_cycle random_shuffle (Some cells) n stride = link_cycle (Some cells) stride 0 (?p @ [0])"
    using len by (simp add: create_cycle_def Let_def)
  have mem: "\<forall>k \<in> set (0 # ?p @ [0]). 0 \<le> k \<and> k \<le> n - 1"
    using p(2) n by auto
  have bound: "k * stride \<le> (n - 1) * stride" if "k \<le> n - 1" for k
    using that st by (intro mult_right_mono) simp_all
  have "(n - 1) * stride < n * stride" using st by (simp add: algebra_simps)
  then have top: "(n - 1) * stride < int (length cells)" using room by linarith
  have r1: "\<forall>k \<in> set (0 # ?p @ [0]). 0 \<le> k \<and> k * stride < int (length cells)"
    using mem bound top by (meson le_less_trans)
  have r2: "\<forall>k \<in> set (0 # ?p @ [0]). k * stride < 2 ^ 31"
    using mem bound rng by (meson le_less_trans)
  have bl: "butlast (0 # ?p @ [0]) = 0 # ?p" by (simp add: butlast_append)
  have d: "distinct (butlast (0 # ?p @ [0]))"
    unfolding bl using p(1) p(2) by simp
  have s: "set (butlast (0 # ?p @ [0])) = {0..n - 1}"
    unfolding bl using p(2) n by auto
  from link_cycle_spec [OF st r1 r2 d] obtain cells' where
    "link_cycle (Some cells) stride 0 (?p @ [0]) = Inr (Some cells')"
    "length cells' = length cells"
    "\<forall>j < length (?p @ [0]). cells' ! nat ((0 # ?p @ [0]) ! j * stride) = ((?p @ [0]) ! j * stride) XOR mask_int"
    "\<forall>off. off \<notin> (\<lambda>k. nat (k * stride)) ` set (butlast (0 # ?p @ [0])) \<longrightarrow> cells' ! off = cells ! off"
    by blast
  moreover have "(0 # ?p @ [0]) ! j = (0 # ?p) ! j" if "j < nat n" for j
    using that len by (metis append_Cons length_Cons length_append_singleton nth_append)
  ultimately show ?thesis unfolding cc s len by auto
qed


lemma create_cycle_next_slot:
  assumes n: "1 \<le> n" and st: "1 \<le> stride"
    and room: "n * stride \<le> int (length cells)"
    and rng: "(n - 1) * stride < 2 ^ 31"
    and perm: "mset (random_shuffle [1..n - 1]) = mset [1..n - 1]"
  shows "\<exists>cells'. create_cycle random_shuffle (Some cells) n stride = Inr (Some cells')
           \<and> length cells' = length cells
           \<and> (\<forall>j < nat n. next_slot (Some cells') stride ((0 # random_shuffle [1..n - 1] @ [0]) ! j)
                  = Inr ((random_shuffle [1..n - 1] @ [0]) ! j))"
proof -
  let ?p = "random_shuffle [1..n - 1]"
  note p = shuffled_indices [OF perm]
  from create_cycle_links [where random_shuffle = random_shuffle, OF assms] obtain cells' where
    cc: "create_cycle random_shuffle (Some cells) n stride = Inr (Some cells')"
    and len: "length cells' = length cells"
    and wr: "\<forall>j < nat n. cells' ! nat ((0 # ?p) ! j * stride) = ((?p @ [0]) ! j * stride) XOR mask_int"
    by blast
  have "next_slot (Some cells') stride ((0 # ?p @ [0]) ! j) = Inr ((?p @ [0]) ! j)"
    if j: "j < nat n" for j
  proof -
    have lp: "length (0 # ?p) = nat n" "length (?p @ [0]) = nat n" using p(3) n by simp_all
    have e: "(0 # ?p @ [0]) ! j = (0 # ?p) ! j"
      using j lp by (metis append_Cons nth_append)
    have "(0 # ?p) ! j \<in> set (0 # ?p)" using j lp(1) by (metis nth_mem)
    then have k: "0 \<le> (0 # ?p) ! j" "(0 # ?p) ! j \<le> n - 1" using p(2) n by auto
    have "(?p @ [0]) ! j \<in> set (?p @ [0])" using j lp(2) by (metis nth_mem)
    then have v: "0 \<le> (?p @ [0]) ! j" using p(2) by auto
    have "(0 # ?p) ! j * stride \<le> (n - 1) * stride"
      using k(2) st by (intro mult_right_mono) simp_all
    moreover have "(n - 1) * stride < n * stride" using st by (simp add: algebra_simps)
    ultimately have hi: "(0 # ?p) ! j * stride < int (length cells')"
      using room len by linarith
    have lo: "0 \<le> (0 # ?p) ! j * stride" using k(1) st by simp
    have "load (Some cells') ((0 # ?p) ! j * stride) = Inr (((?p @ [0]) ! j * stride) XOR mask_int)"
      using lo hi wr j by (simp add: load_def)
    then show ?thesis
      unfolding e by (simp add: next_slot_def xor_mask_cancel sdiv_mult_cancel [OF st v])
  qed
  then show ?thesis using cc len by blast
qed

text \<open>
  Claim C1. Let \<open>n \<ge> 1\<close> be the number of active positions and \<open>stride \<ge> 1\<close>, let the block
  hold at least \<open>n * stride\<close> cells, let the largest slot offset \<open>(n - 1) * stride\<close> fit an
  \<open>int\<close>, and let \<open>random_shuffle\<close> rearrange the vector \<open>1, ..., n - 1\<close>. Then \<open>create_cycle\<close>
  returns, and following the decoded next-pointers from slot 0 for \<open>n\<close> steps visits the
  shuffled indices and then 0: every slot of \<open>{0, ..., n - 1}\<close> exactly once, back at 0 on
  the \<open>n\<close>-th step and not before.
\<close>

theorem create_cycle_single_cycle:
  assumes "1 \<le> n" and "1 \<le> stride"
    and "n * stride \<le> int (length cells)"
    and "(n - 1) * stride < 2 ^ 31"
    and "mset (random_shuffle [1..n - 1]) = mset [1..n - 1]"
  shows "\<exists>mem ks. create_cycle random_shuffle (Some cells) n stride = Inr mem
           \<and> follow mem stride (nat n) 0 = Inr ks
           \<and> ks = random_shuffle [1..n - 1] @ [0]
           \<and> length ks = nat n \<and> distinct ks \<and> set ks = {0..n - 1} \<and> last ks = 0"
proof -
  let ?p = "random_shuffle [1..n - 1]"
  note p = shuffled_indices [OF assms(5)]
  from create_cycle_next_slot [where random_shuffle = random_shuffle, OF assms] obtain cells' where
    cc: "create_cycle random_shuffle (Some cells) n stride = Inr (Some cells')"
    and nx: "\<forall>j < nat n. next_slot (Some cells') stride ((0 # ?p @ [0]) ! j) = Inr ((?p @ [0]) ! j)"
    by blast
  have len: "length (?p @ [0]) = nat n" using p(3) assms(1) by simp
  have "follow (Some cells') stride (length (?p @ [0])) 0 = Inr (?p @ [0])"
    by (rule follow_chain) (use nx len in simp)
  then have fl: "follow (Some cells') stride (nat n) 0 = Inr (?p @ [0])"
    unfolding len .
  have d: "distinct (?p @ [0])" using p(1) p(2) by simp
  have s: "set (?p @ [0]) = {0..n - 1}" using p(2) assms(1) by auto
  show ?thesis using cc fl len d s by simp
qed

theorem create_cycle_single_cycle_witness:
  "(1::int) \<le> 3 \<and> (1::int) \<le> 2 \<and> (3::int) * 2 \<le> int (length [7, 7, 7, 7, 7, 7::int])
     \<and> ((3::int) - 1) * 2 < 2 ^ 31 \<and> mset (rev [1..(3::int) - 1]) = mset [1..3 - 1]
     \<and> (\<exists>mem ks. create_cycle rev (Some [7, 7, 7, 7, 7, 7]) 3 2 = Inr mem
           \<and> follow mem 2 (nat 3) 0 = Inr ks
           \<and> ks = rev [1..3 - 1] @ [0]
           \<and> length ks = nat 3 \<and> distinct ks \<and> set ks = {0..3 - 1} \<and> last ks = 0)"
  using create_cycle_single_cycle [of 3 2 "[7, 7, 7, 7, 7, 7]" rev] by simp

section \<open>Properties of the Trial Aggregator\<close>

lemma pow2_powr: "pow2 e = 2 powr (real_of_int e)"
  by (simp add: pow2_def powr_int)

lemma pow2_pos: "0 < pow2 e"
  by (simp add: pow2_powr)

lemma pow2_add: "pow2 (a + b) = pow2 a * pow2 b"
  by (simp add: pow2_powr powr_add)

lemma pow2_nat: "pow2 (int n) = 2 ^ n"
  by (simp add: pow2_def)

lemma round_even_cases: "round_even q = \<lfloor>q\<rfloor> \<or> (round_even q = \<lfloor>q\<rfloor> + 1 \<and> of_int \<lfloor>q\<rfloor> < q)"
  by (auto simp: round_even_def Let_def)

lemma round_even_le: "q \<le> of_int M \<Longrightarrow> round_even q \<le> M"
proof -
  assume q: "q \<le> of_int M"
  then have f: "\<lfloor>q\<rfloor> \<le> M" by (simp add: floor_le_iff)
  from round_even_cases [of q] show ?thesis
  proof
    assume "round_even q = \<lfloor>q\<rfloor>"
    then show ?thesis using f by simp
  next
    assume a: "round_even q = \<lfloor>q\<rfloor> + 1 \<and> of_int \<lfloor>q\<rfloor> < q"
    have "\<lfloor>q\<rfloor> \<noteq> M"
    proof
      assume "\<lfloor>q\<rfloor> = M"
      then show False using a q by simp
    qed
    then show ?thesis using a f by simp
  qed
qed

lemma round_even_ge: "of_int M \<le> q \<Longrightarrow> M \<le> round_even q"
proof -
  assume "of_int M \<le> q"
  then have "M \<le> \<lfloor>q\<rfloor>" by (simp add: le_floor_iff)
  then show ?thesis using round_even_cases [of q] by auto
qed

lemma exponent_le:
  assumes "\<bar>x\<bar> < 2 ^ n" and "1 \<le> n"
  shows "exponent x \<le> int n - 1"
proof (cases "1 \<le> \<bar>x\<bar>")
  case True
  have "\<lfloor>\<bar>x\<bar>\<rfloor> < 2 ^ n" using assms(1) by (simp add: floor_less_iff)
  then have "bitlen \<lfloor>\<bar>x\<bar>\<rfloor> \<le> int n" by (simp add: bitlen_le_iff_power)
  then show ?thesis using True by (simp add: exponent_def)
next
  case False
  have "0 \<le> bitlen (\<lceil>1 / \<bar>x\<bar>\<rceil> - 1)" by (rule bitlen_nonneg)
  then show ?thesis using False assms(2) by (simp add: exponent_def)
qed

lemma nearest_le:
  assumes x: "\<bar>x\<bar> < 2 ^ (53 - j)" and j: "j \<le> 52" and b: "x \<le> of_int m / 2 ^ j"
  shows "nearest x \<le> of_int m / 2 ^ j"
proof (cases "x = 0")
  case True
  then show ?thesis using b by (simp add: nearest_def)
next
  case False
  define e where "e = max (exponent x) (- 1022)"
  define u where "u = pow2 (e - 52)"
  define d where "d = nat (52 - int j - e)"
  have "exponent x \<le> int (53 - j) - 1" by (rule exponent_le [OF x]) (use j in simp)
  then have e: "e \<le> 52 - int j" using j by (simp add: e_def)
  then have d: "int d = 52 - int j - e" by (simp add: d_def)
  have u: "0 < u" by (simp add: u_def pow2_pos)
  have "pow2 (int j) * u * pow2 (int d) = pow2 (int j + (e - 52) + int d)"
    by (simp add: u_def pow2_add)
  also have "\<dots> = 1" using d by (simp add: pow2_def)
  finally have "2 ^ j * (u * 2 ^ d) = 1" by (simp only: pow2_nat mult.assoc)
  then have "inverse (2 ^ j) = u * 2 ^ d" by (rule inverse_unique)
  then have "of_int m / 2 ^ j = of_int m * (u * 2 ^ d)" by (simp only: divide_inverse)
  also have "\<dots> = of_int (m * 2 ^ d) * u" by (simp only: of_int_mult of_int_power of_int_numeral mult_ac)
  finally have bound: "of_int m / 2 ^ j = of_int (m * 2 ^ d) * u" .
  have cancel: "of_int (m * 2 ^ d) * u / u = of_int (m * 2 ^ d)" using u by simp
  have "x / u \<le> (of_int m / 2 ^ j) / u" using b u by (intro divide_right_mono) simp_all
  also have "\<dots> = of_int (m * 2 ^ d)" unfolding bound by (rule cancel)
  finally have "round_even (x / u) \<le> m * 2 ^ d" by (rule round_even_le)
  then have "real_of_int (round_even (x / u)) \<le> of_int (m * 2 ^ d)" by (simp only: of_int_le_iff)
  then have r: "of_int (round_even (x / u)) * u \<le> of_int (m * 2 ^ d) * u"
    using u by (intro mult_right_mono) simp_all
  have n: "nearest x = of_int (round_even (x / u)) * u"
    using False by (simp add: nearest_def Let_def u_def e_def)
  show ?thesis unfolding n bound by (rule r)
qed

lemma nearest_ge:
  assumes x: "\<bar>x\<bar> < 2 ^ (53 - j)" and j: "j \<le> 52" and b: "of_int m / 2 ^ j \<le> x"
  shows "of_int m / 2 ^ j \<le> nearest x"
proof (cases "x = 0")
  case True
  then show ?thesis using b by (simp add: nearest_def)
next
  case False
  define e where "e = max (exponent x) (- 1022)"
  define u where "u = pow2 (e - 52)"
  define d where "d = nat (52 - int j - e)"
  have "exponent x \<le> int (53 - j) - 1" by (rule exponent_le [OF x]) (use j in simp)
  then have e: "e \<le> 52 - int j" using j by (simp add: e_def)
  then have d: "int d = 52 - int j - e" by (simp add: d_def)
  have u: "0 < u" by (simp add: u_def pow2_pos)
  have "pow2 (int j) * u * pow2 (int d) = pow2 (int j + (e - 52) + int d)"
    by (simp add: u_def pow2_add)
  also have "\<dots> = 1" using d by (simp add: pow2_def)
  finally have "2 ^ j * (u * 2 ^ d) = 1" by (simp only: pow2_nat mult.assoc)
  then have "inverse (2 ^ j) = u * 2 ^ d" by (rule inverse_unique)
  then have "of_int m / 2 ^ j = of_int m * (u * 2 ^ d)" by (simp only: divide_inverse)
  also have "\<dots> = of_int (m * 2 ^ d) * u" by (simp only: of_int_mult of_int_power of_int_numeral mult_ac)
  finally have bound: "of_int m / 2 ^ j = of_int (m * 2 ^ d) * u" .
  have cancel: "of_int (m * 2 ^ d) * u / u = of_int (m * 2 ^ d)" using u by simp
  have "(of_int m / 2 ^ j) / u \<le> x / u" using b u by (intro divide_right_mono) simp_all
  moreover have "(of_int m / 2 ^ j) / u = of_int (m * 2 ^ d)"
    unfolding bound by (rule cancel)
  ultimately have "of_int (m * 2 ^ d) \<le> x / u" by simp
  then have "m * 2 ^ d \<le> round_even (x / u)" by (rule round_even_ge)
  then have "real_of_int (m * 2 ^ d) \<le> of_int (round_even (x / u))" by (simp only: of_int_le_iff)
  then have r: "of_int (m * 2 ^ d) * u \<le> of_int (round_even (x / u)) * u"
    using u by (intro mult_right_mono) simp_all
  have n: "nearest x = of_int (round_even (x / u)) * u"
    using False by (simp add: nearest_def Let_def u_def e_def)
  show ?thesis unfolding n bound by (rule r)
qed


lemma nearest_two_pow_53: "nearest (2 ^ 53) = 2 ^ 53" "nearest (- (2 ^ 53)) = - (2 ^ 53)"
  by code_simp+

lemma nearest_between:
  assumes x: "\<bar>x\<bar> \<le> 2 ^ 53" and lo: "of_int lo \<le> x" and hi: "x \<le> of_int hi"
  shows "of_int lo \<le> nearest x" and "nearest x \<le> of_int hi"
proof -
  have "of_int lo \<le> nearest x \<and> nearest x \<le> of_int hi"
  proof (cases "\<bar>x\<bar> < 2 ^ 53")
    case True
    then have s: "\<bar>x\<bar> < 2 ^ (53 - 0)" by simp
    have "of_int lo / 2 ^ 0 \<le> nearest x"
      by (rule nearest_ge [OF s]) (use lo in simp_all)
    moreover have "nearest x \<le> of_int hi / 2 ^ 0"
      by (rule nearest_le [OF s]) (use hi in simp_all)
    ultimately show ?thesis by simp
  next
    case False
    then have "x = 2 ^ 53 \<or> x = - (2 ^ 53)" using x by (auto simp: abs_if split: if_splits)
    then have "nearest x = x" using nearest_two_pow_53 by auto
    then show ?thesis using lo hi by simp
  qed
  then show "of_int lo \<le> nearest x" and "nearest x \<le> of_int hi" by simp_all
qed

lemma nearest_int:
  assumes "\<bar>n\<bar> \<le> 2 ^ 53"
  shows "nearest (of_int n) = of_int n"
proof -
  have x: "\<bar>real_of_int n\<bar> \<le> 2 ^ 53"
    using assms by (metis of_int_abs of_int_le_numeral_power_cancel_iff)
  from nearest_between [OF x, of n n] show ?thesis by simp
qed

lemma to_double_small:
  assumes "\<bar>x\<bar> \<le> 2 ^ 53"
  shows "to_double x = Fin (nearest x)"
proof -
  have "of_int (- (2 ^ 53)) \<le> x" "x \<le> of_int (2 ^ 53)" using assms by (simp_all add: abs_le_iff)
  from nearest_between [OF assms this]
  have "- (2 ^ 53) \<le> nearest x" "nearest x \<le> 2 ^ 53" by simp_all
  moreover have "(2::real) ^ 53 < 2 ^ 1024" by simp
  ultimately show ?thesis by (simp add: to_double_def Let_def)
qed

lemma nearest_literal_0_8: "nearest 0.8 = 3602879701896397 / 4503599627370496"
  by code_simp

lemma end_idx_eq:
  assumes "T < 2 ^ 31"
  shows "\<lfloor>nearest (nearest (real T) * nearest 0.8)\<rfloor> = int ((4 * T) div 5)"
proof -
  define N where "N = (4 * T) div 5"
  define c :: real where "c = 3602879701896397 / 4503599627370496"
  define x where "x = real T * c"
  have c: "4 / 5 \<le> c" "c \<le> 4 / 5 + 1 / 2 ^ 41" by (simp_all add: c_def)
  have Tr: "real T < 2 ^ 31" using assms by (metis of_nat_less_numeral_power_cancel_iff)
  have "\<bar>int T\<bar> \<le> 2 ^ 53" using assms by simp
  from nearest_int [OF this] have nT: "nearest (real T) = real T" by simp
  have "5 * N \<le> 4 * T" "4 * T \<le> 5 * N + 4" unfolding N_def by presburger+
  then have "real (5 * N) \<le> real (4 * T)" "real (4 * T) \<le> real (5 * N + 4)"
    by (simp_all only: of_nat_le_iff)
  then have N: "5 * real N \<le> 4 * real T" "4 * real T \<le> 5 * real N + 4" by simp_all
  have "4 / 5 * real T \<le> c * real T" using c(1) by (intro mult_right_mono) simp_all
  then have x_lo: "real N \<le> x" using N(1) by (simp add: x_def mult.commute)
  have "c * real T \<le> (4 / 5 + 1 / 2 ^ 41) * real T" using c(2) by (intro mult_right_mono) simp_all
  then have x1: "x \<le> 4 / 5 * real T + real T / 2 ^ 41" by (simp add: x_def algebra_simps)
  have "real T / 2 ^ 41 \<le> 2 ^ 31 / 2 ^ 41" using Tr by (intro divide_right_mono) simp_all
  then have x2: "real T / 2 ^ 41 \<le> 1 / 1024" by simp
  have x_hi: "x \<le> real N + 7 / 8" using x1 x2 N(2) by linarith
  have x_nn: "0 \<le> x" using x_lo by simp
  have "real T < 2147483648" using Tr by simp
  then have "x < 2147483649" using x_hi N(1) by linarith
  then have a0: "\<bar>x\<bar> < 2 ^ (53 - 0)" and a3: "\<bar>x\<bar> < 2 ^ (53 - 3)" using x_nn by simp_all
  have lo: "real_of_int (int N) / 2 ^ 0 \<le> x" using x_lo by simp
  have hi: "x \<le> real_of_int (8 * int N + 7) / 2 ^ 3" using x_hi by simp
  have "real_of_int (int N) / 2 ^ 0 \<le> nearest x" by (rule nearest_ge [OF a0 _ lo]) simp
  then have l: "real_of_int (int N) \<le> nearest x" by simp
  have "nearest x \<le> real_of_int (8 * int N + 7) / 2 ^ 3" by (rule nearest_le [OF a3 _ hi]) simp
  then have "nearest x < real_of_int (int N) + 1" by simp
  with l have "\<lfloor>nearest x\<rfloor> = int N" by (simp add: floor_eq_iff)
  then show ?thesis by (simp only: nT nearest_literal_0_8 x_def c_def N_def)
qed

lemma int64_add_left: "int64 (int64 a + b) = int64 (a + b)"
  unfolding int64_def
  by (metis signed_take_bit_add signed_take_bit_signed_take_bit min.idem)

lemma fold_int64: "fold (\<lambda>v t. int64 (t + v)) xs (int64 a) = int64 (a + sum_list xs)"
proof (induction xs arbitrary: a)
  case Nil
  then show ?case by simp
next
  case (Cons x xs)
  have "fold (\<lambda>v t. int64 (t + v)) (x # xs) (int64 a) = fold (\<lambda>v t. int64 (t + v)) xs (int64 (a + x))"
    by (simp add: int64_add_left)
  also have "\<dots> = int64 (a + x + sum_list xs)" by (rule Cons.IH)
  finally show ?case by (simp add: add.assoc)
qed

lemma int64_id: "- (2 ^ 63) \<le> x \<Longrightarrow> x < 2 ^ 63 \<Longrightarrow> int64 x = x"
  by (simp add: int64_def signed_take_bit_int_eq_self)

lemma sum_list_lower: "\<forall>x \<in> set xs. lo \<le> x \<Longrightarrow> int (length xs) * lo \<le> sum_list xs"
  by (induction xs) (auto simp: algebra_simps)

lemma sum_list_upper: "\<forall>x \<in> set xs. x \<le> hi \<Longrightarrow> sum_list xs \<le> int (length xs) * hi"
  by (induction xs) (auto simp: algebra_simps)

lemma average_nonempty:
  assumes "values \<noteq> []" and "length values < 2 ^ 31"
  shows "average values =
           (double_div
              (nearest (of_int (int64 (sum_list (take ((4 * length values) div 5) (sort values))))))
              (nearest (of_int (int ((4 * length values) div 5)))),
            sort values)"
proof -
  have "fold (\<lambda>v t. int64 (t + v)) xs 0 = int64 (sum_list xs)" for xs
    using fold_int64 [of xs 0] by (simp add: int64_def)
  then show ?thesis
    using assms(1) unfolding average_def end_idx_eq [OF assms(2)] by (simp add: Let_def)
qed


lemma average_bounds:
  assumes T: "2 \<le> length values" "length values < 2 ^ 31"
    and k: "k = (4 * length values) div 5"
    and S: "\<bar>sum_list (take k (sort values))\<bar> \<le> 2 ^ 53"
  shows "\<exists>a. fst (average values) = Fin a
           \<and> a = nearest (real_of_int (sum_list (take k (sort values))) / real k)
           \<and> real_of_int (sort values ! 0) \<le> a
           \<and> a \<le> real_of_int (sort values ! (k - 1))
           \<and> sort values ! (k - 1) \<le> sort values ! k
           \<and> (\<forall>v. values = replicate (length values) v \<longrightarrow> a = real_of_int v)"
proof -
  let ?s = "sort values"
  let ?kept = "take k ?s"
  let ?S = "sum_list ?kept"
  have ne: "values \<noteq> []" using T(1) by auto
  have k1: "1 \<le> k" and kT: "k < length values" using T(1) k by simp_all
  have lk: "length ?kept = k" using kT by simp
  have srt: "sorted ?s" by simp
  have kpos: "0 < real k" using k1 by simp
  define x where "x = real_of_int ?S / real k"
  define a where "a = nearest x"
  have Sr: "\<bar>real_of_int ?S\<bar> \<le> 2 ^ 53"
    using S by (metis of_int_abs of_int_le_numeral_power_cancel_iff)
  have "\<bar>x\<bar> = \<bar>real_of_int ?S\<bar> / real k" by (simp add: x_def)
  also have "\<dots> \<le> \<bar>real_of_int ?S\<bar> / 1" using k1 by (intro divide_left_mono) simp_all
  finally have xb: "\<bar>x\<bar> \<le> 2 ^ 53" using Sr by simp
  have i64: "int64 ?S = ?S" using S by (intro int64_id) (simp_all add: abs_le_iff)
  have nS: "nearest (of_int ?S) = of_int ?S" by (rule nearest_int [OF S])
  have "\<bar>int k\<bar> \<le> 2 ^ 53" using kT T(2) by simp
  from nearest_int [OF this] have nk: "nearest (real k) = real k" by simp
  have avg: "fst (average values) = Fin a"
    using kpos
    by (simp add: average_nonempty [OF ne T(2)] k [symmetric] i64 nS nk double_div_def
        to_double_small [OF xb] x_def [symmetric] a_def)
  have mn: "\<forall>y \<in> set ?kept. ?s ! 0 \<le> y"
  proof
    fix y assume "y \<in> set ?kept"
    then obtain i where i: "i < k" "y = ?kept ! i" using lk by (metis in_set_conv_nth)
    then have "y = ?s ! i" by simp
    moreover have "?s ! 0 \<le> ?s ! i" using srt i(1) kT by (intro sorted_nth_mono) simp_all
    ultimately show "?s ! 0 \<le> y" by simp
  qed
  have mx: "\<forall>y \<in> set ?kept. y \<le> ?s ! (k - 1)"
  proof
    fix y assume "y \<in> set ?kept"
    then obtain i where i: "i < k" "y = ?kept ! i" using lk by (metis in_set_conv_nth)
    then have "y = ?s ! i" by simp
    moreover have "?s ! i \<le> ?s ! (k - 1)" using srt i(1) kT by (intro sorted_nth_mono) simp_all
    ultimately show "y \<le> ?s ! (k - 1)" by simp
  qed
  have "int k * ?s ! 0 \<le> ?S" using sum_list_lower [OF mn] lk by simp
  then have "real k * real_of_int (?s ! 0) \<le> real_of_int ?S"
    by (metis of_int_le_iff of_int_mult of_int_of_nat_eq)
  then have x_lo: "real_of_int (?s ! 0) \<le> x"
    unfolding x_def using kpos by (simp add: pos_le_divide_eq mult.commute)
  have "?S \<le> int k * ?s ! (k - 1)" using sum_list_upper [OF mx] lk by simp
  then have "real_of_int ?S \<le> real k * real_of_int (?s ! (k - 1))"
    by (metis of_int_le_iff of_int_mult of_int_of_nat_eq)
  then have x_hi: "x \<le> real_of_int (?s ! (k - 1))"
    unfolding x_def using kpos by (simp add: pos_divide_le_eq mult.commute)
  note b = nearest_between [OF xb x_lo x_hi]
  have b3: "?s ! (k - 1) \<le> ?s ! k" using srt kT by (intro sorted_nth_mono) simp_all
  have b4: "a = real_of_int v" if "values = replicate (length values) v" for v
  proof -
    have "?s = replicate (length values) v"
      using that by (metis sorted_replicate sorted_sort_id)
    then have "?kept = replicate k v" using kT by simp
    then have "?S = int k * v" by (simp add: sum_list_replicate)
    then have xv: "x = real_of_int v" unfolding x_def using kpos by simp
    then have "\<bar>real_of_int v\<bar> \<le> 2 ^ 53" using xb by simp
    then have "\<bar>v\<bar> \<le> 2 ^ 53" by (metis of_int_abs of_int_le_numeral_power_cancel_iff)
    from nearest_int [OF this] show ?thesis by (simp add: a_def xv)
  qed
  show ?thesis using avg b b3 b4 unfolding a_def x_def by blast
qed



text \<open>
  Claim C10. \<open>average\<close> leaves a non-empty argument vector sorted ascending, with the same
  multiset of values, and leaves an empty one as it is.
\<close>

theorem average_sorts_argument:
  "(values \<noteq> [] \<longrightarrow> sorted (snd (average values)) \<and> mset (snd (average values)) = mset values)
     \<and> (values = [] \<longrightarrow> snd (average values) = values)"
  by (simp add: average_def Let_def)

theorem average_sorts_argument_witness:
  "[3, 1, 2::int] \<noteq> [] \<and> snd (average [3, 1, 2]) = [1, 2, 3]
     \<and> sorted (snd (average [3, 1, 2])) \<and> mset (snd (average [3, 1, 2])) = mset [3, 1, 2::int]
     \<and> snd (average []) = []"
  using average_sorts_argument [of "[3, 1, 2]"] average_sorts_argument [of "[]"]
  by (simp add: average_def Let_def)

section \<open>Memory safety of cycle construction and traversal\<close>

lemma store_Inr_iff:
  "store (Some cells) off v = Inr p \<longleftrightarrow>
     0 \<le> off \<and> off < int (length cells) \<and> p = Some (cells[nat off := v])"
  by (auto simp: store_def)

lemma sdiv_nonneg: "0 \<le> a \<Longrightarrow> 0 < b \<Longrightarrow> a sdiv b = (a::int) div b"
  by (cases "a = 0") (simp_all add: signed_divide_int_def)

lemma int_div_positive:
  assumes "0 \<le> a" "0 < b"
  shows "int_div a b = Inr (a div b)"
  using assms by (simp add: int_div_def sdiv_nonneg)

lemma traverse_loop_safe:
  assumes inv: "\<And>k. 0 \<le> k \<Longrightarrow> k < n \<Longrightarrow>
                 \<exists>k'. 0 \<le> k' \<and> k' < n \<and> load mem (k * stride) = Inr ((k' * stride) XOR mask_int)"
  shows "0 \<le> k \<Longrightarrow> k < n \<Longrightarrow> \<exists>acc'. traverse_loop steps mem (k * stride) acc = Inr acc'"
proof (induction steps arbitrary: k acc)
  case 0
  then show ?case by simp
next
  case (Suc steps)
  from inv [OF Suc.prems] obtain k' where
    k': "0 \<le> k'" "k' < n" "load mem (k * stride) = Inr ((k' * stride) XOR mask_int)"
    by blast
  from Suc.IH [OF k'(1) k'(2)] show ?case
    using k'(3) by (simp add: xor_mask_cancel)
qed

lemma create_cycle_closed:
  assumes n: "1 \<le> n" and st: "1 \<le> stride"
    and room: "n * stride \<le> int (length cells)"
    and rng: "(n - 1) * stride < 2 ^ 31"
    and perm: "mset (random_shuffle [1..n - 1]) = mset [1..n - 1]"
  shows "\<exists>cells'. create_cycle random_shuffle (Some cells) n stride = Inr (Some cells')
           \<and> length cells' = length cells
           \<and> (\<forall>k. 0 \<le> k \<and> k < n \<longrightarrow>
                 (\<exists>k'. 0 \<le> k' \<and> k' < n
                    \<and> load (Some cells') (k * stride) = Inr ((k' * stride) XOR mask_int)))"
proof -
  let ?p = "random_shuffle [1..n - 1]"
  note p = shuffled_indices [OF perm]
  from create_cycle_links [where random_shuffle = random_shuffle, OF assms] obtain cells' where
    cc: "create_cycle random_shuffle (Some cells) n stride = Inr (Some cells')"
    and len: "length cells' = length cells"
    and wr: "\<forall>j < nat n. cells' ! nat ((0 # ?p) ! j * stride) = ((?p @ [0]) ! j * stride) XOR mask_int"
    by blast
  have lp: "length (0 # ?p) = nat n" "length (?p @ [0]) = nat n" using p(3) n by simp_all
  have "\<exists>k'. 0 \<le> k' \<and> k' < n \<and> load (Some cells') (k * stride) = Inr ((k' * stride) XOR mask_int)"
    if k: "0 \<le> k" "k < n" for k
  proof -
    have "k \<in> set (0 # ?p)" using k p(2) by auto
    then obtain j where j: "j < nat n" "(0 # ?p) ! j = k"
      using lp(1) by (metis in_set_conv_nth)
    have "(?p @ [0]) ! j \<in> set (?p @ [0])" using j(1) lp(2) by (metis nth_mem)
    then have v: "0 \<le> (?p @ [0]) ! j" "(?p @ [0]) ! j < n" using p(2) n by auto
    have "k * stride \<le> (n - 1) * stride"
      using k(2) st by (intro mult_right_mono) simp_all
    moreover have "(n - 1) * stride < n * stride" using st by (simp add: algebra_simps)
    ultimately have hi: "k * stride < int (length cells')" using room len by linarith
    have lo: "0 \<le> k * stride" using k(1) st by simp
    have "cells' ! nat (k * stride) = ((?p @ [0]) ! j * stride) XOR mask_int"
      using wr j by auto
    then have "load (Some cells') (k * stride) = Inr (((?p @ [0]) ! j * stride) XOR mask_int)"
      using lo hi by (simp add: load_def)
    then show ?thesis using v by blast
  qed
  then show ?thesis using cc len by blast
qed

lemma create_cycle_traverse_safe:
  assumes "1 \<le> len" and "len < 2 ^ 31" and "1 \<le> stride"
    and "int_div len stride = Inr active_positions" and "4 < active_positions"
    and "length cells = nat len"
    and "mset (random_shuffle [1..active_positions - 1]) = mset [1..active_positions - 1]"
  shows "\<exists>cells'. create_cycle random_shuffle (Some cells) active_positions stride = Inr (Some cells')
           \<and> length cells' = nat len
           \<and> (\<forall>steps acc. \<exists>acc'. traverse steps (Some cells') acc = Inr acc')"
proof -
  have ap: "active_positions = len div stride"
    using assms(1,3,4) by (simp add: int_div_positive)
  have "len div stride * stride + len mod stride = len" by simp
  moreover have "0 \<le> len mod stride" using assms(3) by simp
  ultimately have "len div stride * stride \<le> len" by linarith
  then have room: "active_positions * stride \<le> int (length cells)"
    using assms(1,6) unfolding ap by simp
  have "(active_positions - 1) * stride < active_positions * stride"
    using assms(3) by (simp add: algebra_simps)
  then have rng: "(active_positions - 1) * stride < 2 ^ 31"
    using room assms(1,2,6) by linarith
  have n: "1 \<le> active_positions" using assms(5) by simp
  from create_cycle_closed [where random_shuffle = random_shuffle, OF n assms(3) room rng assms(7)]
  obtain cells' where
    cc: "create_cycle random_shuffle (Some cells) active_positions stride = Inr (Some cells')"
    and len: "length cells' = length cells"
    and inv: "\<forall>k. 0 \<le> k \<and> k < active_positions \<longrightarrow>
                 (\<exists>k'. 0 \<le> k' \<and> k' < active_positions
                    \<and> load (Some cells') (k * stride) = Inr ((k' * stride) XOR mask_int))"
    by blast
  have "\<exists>acc'. traverse steps (Some cells') acc = Inr acc'" for steps acc
  proof -
    have "\<exists>acc'. traverse_loop (nat steps) (Some cells') (0 * stride) acc = Inr acc'"
      by (rule traverse_loop_safe [where n = active_positions]) (use inv n in auto)
    then show ?thesis by (simp add: traverse_def)
  qed
  then show ?thesis using cc len assms(6) by auto
qed

text \<open>
  Claim C9. Let \<open>1 \<le> length < 2^31\<close>, \<open>stride \<ge> 1\<close> and \<open>active_positions = length / stride > 4\<close>,
  and let the block hold \<open>length\<close> cells, as \<open>measure\<close> allocates it. A store or load
  succeeds exactly when its offset is at least 0 and less than the number of cells
  (\<open>store_Inr_iff\<close>, \<open>load_Inr_iff\<close>). Then \<open>create_cycle\<close> completes without a fault, so every
  one of its writes is inside the block, and on the block it leaves \<open>traverse\<close> completes
  without a fault for every step count and accumulator, so every one of its reads is inside
  the block.
\<close>

theorem cycle_accesses_in_bounds:
  assumes "1 \<le> len" and "len < 2 ^ 31" and "1 \<le> stride"
    and "int_div len stride = Inr active_positions" and "4 < active_positions"
    and "length cells = nat len"
    and "mset (random_shuffle [1..active_positions - 1]) = mset [1..active_positions - 1]"
  shows "\<exists>cells'. create_cycle random_shuffle (Some cells) active_positions stride = Inr (Some cells')
           \<and> length cells' = nat len
           \<and> (\<forall>steps acc. \<exists>acc'. traverse steps (Some cells') acc = Inr acc')"
  using assms by (rule create_cycle_traverse_safe)

theorem cycle_accesses_in_bounds_witness:
  "(1::int) \<le> 5 \<and> (5::int) < 2 ^ 31 \<and> (1::int) \<le> 1 \<and> int_div 5 1 = Inr 5 \<and> (4::int) < 5
     \<and> length [9, 9, 9, 9, 9::int] = nat 5 \<and> mset (rev [1..(5::int) - 1]) = mset [1..5 - 1]
     \<and> (\<exists>cells'. create_cycle rev (Some [9, 9, 9, 9, 9]) 5 1 = Inr (Some cells')
           \<and> length cells' = nat 5
           \<and> (\<forall>steps acc. \<exists>acc'. traverse steps (Some cells') acc = Inr acc'))"
  using cycle_accesses_in_bounds [of 5 1 5 "[9, 9, 9, 9, 9]" rev]
  by (simp add: int_div_def signed_divide_int_def)

section \<open>Properties of the Measurement Harness\<close>

lemma measure_pair_unprobed:
  "\<not> probed len gap \<Longrightarrow> \<exists>r. measure_pair w on_result i j len gap s acc = (s, r)"
  by (auto simp: measure_pair_def probed_def split: sum.splits)

lemma measure_pair_unprobed_env:
  "\<not> probed len gap \<Longrightarrow>
     measure_pair w on_result i j len gap s acc = measure_pair w' on_result i j len gap s acc"
  by (auto simp: measure_pair_def probed_def split: sum.splits)

lemma measure_pair_calls:
  assumes "c \<in> set (fst (measure_pair w record_call i j len gap calls acc))"
  shows "c \<in> set calls \<or> (fst c = i \<and> fst (snd c) = j \<and> probed len gap)"
  using assms
  by (auto simp: measure_pair_def probed_def record_call_def split: sum.splits if_splits prod.splits)

lemma measure_strides_calls:
  assumes "c \<in> set (fst (measure_strides w record_call i len j0 gaps calls acc))"
  shows "c \<in> set calls
           \<or> (fst c = i \<and> j0 \<le> fst (snd c) \<and> fst (snd c) < j0 + length gaps
                \<and> probed len (gaps ! (fst (snd c) - j0)))"
  using assms
proof (induction gaps arbitrary: j0 calls acc)
  case Nil
  then show ?case by simp
next
  case (Cons gap gaps)
  obtain s' r where mp: "measure_pair (w j0) record_call i j0 len gap calls acc = (s', r)"
    by (cases "measure_pair (w j0) record_call i j0 len gap calls acc")
  have first: "c \<in> set s' \<Longrightarrow> c \<in> set calls \<or> (fst c = i \<and> fst (snd c) = j0 \<and> probed len gap)"
    using measure_pair_calls [of c "w j0" i j0 len gap calls acc] mp by simp
  show ?case
  proof (cases r)
    case (Inl e)
    then have "c \<in> set s'" using Cons.prems mp by simp
    then show ?thesis using first by auto
  next
    case (Inr acc')
    then have "c \<in> set (fst (measure_strides w record_call i len (Suc j0) gaps s' acc'))"
      using Cons.prems mp by simp
    from Cons.IH [OF this] show ?thesis
    proof
      assume "c \<in> set s'"
      then show ?thesis using first by auto
    next
      assume a: "fst c = i \<and> Suc j0 \<le> fst (snd c) \<and> fst (snd c) < Suc j0 + length gaps
                   \<and> probed len (gaps ! (fst (snd c) - Suc j0))"
      then have "(gap # gaps) ! (fst (snd c) - j0) = gaps ! (fst (snd c) - Suc j0)"
        by (metis nth_Cons_Suc Suc_le_eq Suc_diff_Suc)
      then show ?thesis using a by auto
    qed
  qed
qed

lemma measure_lengths_calls:
  assumes "c \<in> set (fst (measure_lengths w record_call strides_v i0 lens calls acc))"
  shows "c \<in> set calls
           \<or> (i0 \<le> fst c \<and> fst c < i0 + length lens \<and> fst (snd c) < length strides_v
                \<and> probed (lens ! (fst c - i0)) (strides_v ! fst (snd c)))"
  using assms
proof (induction lens arbitrary: i0 calls acc)
  case Nil
  then show ?case by simp
next
  case (Cons len lens)
  obtain s' r where ms: "measure_strides (w i0) record_call i0 len 0 strides_v calls acc = (s', r)"
    by (cases "measure_strides (w i0) record_call i0 len 0 strides_v calls acc")
  have first: "c \<in> set s' \<Longrightarrow> c \<in> set calls
                 \<or> (fst c = i0 \<and> fst (snd c) < length strides_v \<and> probed len (strides_v ! fst (snd c)))"
    using measure_strides_calls [of c "w i0" i0 len 0 strides_v calls acc] ms by auto
  show ?case
  proof (cases r)
    case (Inl e)
    then have "c \<in> set s'" using Cons.prems ms by simp
    then show ?thesis using first by auto
  next
    case (Inr acc')
    then have "c \<in> set (fst (measure_lengths w record_call strides_v (Suc i0) lens s' acc'))"
      using Cons.prems ms by simp
    from Cons.IH [OF this] show ?thesis
    proof
      assume "c \<in> set s'"
      then show ?thesis using first by auto
    next
      assume a: "Suc i0 \<le> fst c \<and> fst c < Suc i0 + length lens \<and> fst (snd c) < length strides_v
                   \<and> probed (lens ! (fst c - Suc i0)) (strides_v ! fst (snd c))"
      then have "(len # lens) ! (fst c - i0) = lens ! (fst c - Suc i0)"
        by (metis nth_Cons_Suc Suc_le_eq Suc_diff_Suc)
      then show ?thesis using a by auto
    qed
  qed
qed


lemma measure_strides_env:
  assumes "\<And>b. j0 \<le> b \<Longrightarrow> b < j0 + length gaps \<Longrightarrow> w b = w' b \<or> \<not> probed len (gaps ! (b - j0))"
  shows "measure_strides w on_result i len j0 gaps s acc = measure_strides w' on_result i len j0 gaps s acc"
  using assms
proof (induction gaps arbitrary: j0 s acc)
  case Nil
  then show ?case by simp
next
  case (Cons gap gaps)
  have "w j0 = w' j0 \<or> \<not> probed len gap" using Cons.prems [of j0] by simp
  then have h: "measure_pair (w j0) on_result i j0 len gap s acc = measure_pair (w' j0) on_result i j0 len gap s acc"
    using measure_pair_unprobed_env by (metis (no_types))
  have t: "w b = w' b \<or> \<not> probed len (gaps ! (b - Suc j0))"
    if "Suc j0 \<le> b" "b < Suc j0 + length gaps" for b
  proof -
    have "(gap # gaps) ! (b - j0) = gaps ! (b - Suc j0)"
      using that by (metis Suc_le_eq nth_Cons_Suc Suc_diff_Suc)
    then show ?thesis using Cons.prems [of b] that by auto
  qed
  show ?case
    using h Cons.IH [OF t] by (auto split: prod.splits sum.splits)
qed

lemma measure_lengths_env:
  assumes "\<And>a b. i0 \<le> a \<Longrightarrow> a < i0 + length lens \<Longrightarrow> b < length strides_v \<Longrightarrow>
             w a b = w' a b \<or> \<not> probed (lens ! (a - i0)) (strides_v ! b)"
  shows "measure_lengths w on_result strides_v i0 lens s acc = measure_lengths w' on_result strides_v i0 lens s acc"
  using assms
proof (induction lens arbitrary: i0 s acc)
  case Nil
  then show ?case by simp
next
  case (Cons len lens)
  have h: "measure_strides (w i0) on_result i0 len 0 strides_v s acc
             = measure_strides (w' i0) on_result i0 len 0 strides_v s acc"
    by (rule measure_strides_env) (use Cons.prems [of i0] in auto)
  have t: "w a b = w' a b \<or> \<not> probed (lens ! (a - Suc i0)) (strides_v ! b)"
    if "Suc i0 \<le> a" "a < Suc i0 + length lens" "b < length strides_v" for a b
  proof -
    have "(len # lens) ! (a - i0) = lens ! (a - Suc i0)"
      using that by (metis Suc_le_eq nth_Cons_Suc Suc_diff_Suc)
    then show ?thesis using Cons.prems [of a b] that by auto
  qed
  show ?case
    using h Cons.IH [OF t] by (auto split: prod.splits sum.splits)
qed

lemma measure_all_calls_probed:
  assumes "(i, j, t) \<in> set (fst (measure_all w stride_sizes_v length_sizes_v record_call []))"
  shows "i < length length_sizes_v \<and> j < length stride_sizes_v
           \<and> probed (length_sizes_v ! i) (stride_sizes_v ! j)"
proof -
  have "(i, j, t) \<in> set (fst (measure_lengths w record_call stride_sizes_v 0 length_sizes_v [] 0))"
    using assms by (simp add: measure_all_def)
  from measure_lengths_calls [OF this] show ?thesis by simp
qed

lemma measure_all_env_unprobed:
  assumes "\<not> probed (length_sizes_v ! i) (stride_sizes_v ! j)"
  shows "measure_all (\<lambda>a b. if a = i \<and> b = j then e else w a b)
             stride_sizes_v length_sizes_v on_result s
           = measure_all w stride_sizes_v length_sizes_v on_result s"
  unfolding measure_all_def
  by (rule measure_lengths_env) (use assms in auto)

text \<open>
  Claim C6. For a pair at indices \<open>(i, j)\<close> with \<open>length / stride \<le> 4\<close>, no run of \<open>measure\<close>
  invokes the callback with these indices, whatever the environment does and whether or
  not the run ends in a fault; and the run consults nothing of the environment for this
  pair (allocator, shuffle, clock): replacing the pair's environment by any other leaves
  the outcome of \<open>measure\<close> unchanged, for every callback.
\<close>

theorem measure_skip_rule:
  assumes "i < length length_sizes_v" and "j < length stride_sizes_v"
    and "int_div (length_sizes_v ! i) (stride_sizes_v ! j) = Inr active_positions"
    and "active_positions \<le> 4"
  shows "(\<forall>t. (i, j, t) \<notin> set (fst (measure_all w stride_sizes_v length_sizes_v record_call [])))
           \<and> (\<forall>e on_result s.
                 measure_all (\<lambda>a b. if a = i \<and> b = j then e else w a b)
                     stride_sizes_v length_sizes_v on_result s
                   = measure_all w stride_sizes_v length_sizes_v on_result s)"
proof -
  have np: "\<not> probed (length_sizes_v ! i) (stride_sizes_v ! j)"
    using assms(3,4) by (simp add: probed_def)
  show ?thesis
  proof (intro conjI allI)
    fix t
    show "(i, j, t) \<notin> set (fst (measure_all w stride_sizes_v length_sizes_v record_call []))"
      using measure_all_calls_probed [of i j t w stride_sizes_v length_sizes_v] np by blast
  next
    fix e on_result s
    show "measure_all (\<lambda>a b. if a = i \<and> b = j then e else w a b)
              stride_sizes_v length_sizes_v on_result s
            = measure_all w stride_sizes_v length_sizes_v on_result s"
      by (rule measure_all_env_unprobed [OF np])
  qed
qed

theorem measure_skip_rule_witness:
  "0 < length [5, 10::int] \<and> 1 < length [1, 2::int] \<and> int_div ([5, 10] ! 0) ([1, 2] ! 1) = Inr 2
     \<and> (2::int) \<le> 4
     \<and> (\<forall>t. (0, 1, t) \<notin> set (fst (measure_all (\<lambda>i j. env0) [1, 2] [5, 10] record_call [])))
     \<and> (\<forall>e on_result s.
           measure_all (\<lambda>a b. if a = 0 \<and> b = 1 then e else env0) [1, 2] [5, 10] on_result s
             = measure_all (\<lambda>a b. env0) [1, 2] [5, 10] on_result s)"
  using measure_skip_rule [of 0 "[5, 10]" 1 "[1, 2]" 2 "\<lambda>i j. env0"]
  by (simp add: int_div_def signed_divide_int_def)

lemma create_cycle_null:
  assumes "1 \<le> n"
  shows "create_cycle random_shuffle None n stride = Inl NullPointer"
proof -
  obtain k ks where "random_shuffle [1..n - 1] @ [0] = k # ks"
    by (cases "random_shuffle [1..n - 1] @ [0]") auto
  moreover obtain m where "nat n = Suc m" using assms by (cases "nat n") auto
  ultimately show ?thesis by (simp add: create_cycle_def store_def)
qed

text \<open>
  Claim C8, as stated, fails: \<open>measure\<close> has no test of the pointer \<open>aligned_alloc\<close> returns.
  When the allocation fails, the null pointer is passed to \<open>create_cycle\<close>, and the run ends
  in the fault of the first store through it, not in an orderly abort.
\<close>

theorem failed_allocation_unchecked:
  "aligned_alloc env_no_memory 5 = None
     \<and> create_cycle (shuffle env_no_memory) (aligned_alloc env_no_memory 5) 5 1 = Inl NullPointer
     \<and> measure_all (\<lambda>i j. env_no_memory) [1] [5] record_call [] = ([], Inl NullPointer)"
  by (simp add: env_no_memory_def aligned_alloc_def create_cycle_null measure_all_def
      measure_pair_def int_div_def signed_divide_int_def)

text \<open>
  Claim C8, amended. When the allocation for a pair that is not skipped fails,
  \<open>create_cycle\<close> is called with the null pointer and faults on its first store; the loop
  body ends with that fault, and the callback is not invoked for the pair.
\<close>

theorem failed_allocation_faults:
  assumes "\<not> alloc_ok w" and "int_div len gap = Inr active_positions" and "4 < active_positions"
  shows "aligned_alloc w len = None
           \<and> create_cycle (shuffle w) (aligned_alloc w len) active_positions gap = Inl NullPointer
           \<and> measure_pair w on_result i j len gap s acc = (s, Inl NullPointer)"
proof -
  have a: "aligned_alloc w len = None" using assms(1) by (simp add: aligned_alloc_def)
  have c: "create_cycle (shuffle w) None active_positions gap = Inl NullPointer"
    by (rule create_cycle_null) (use assms(3) in simp)
  show ?thesis using a c assms(2,3) by (simp add: measure_pair_def)
qed

theorem failed_allocation_faults_witness:
  "\<not> alloc_ok env_no_memory \<and> int_div 5 1 = Inr 5 \<and> (4::int) < 5
     \<and> aligned_alloc env_no_memory 5 = None
     \<and> create_cycle (shuffle env_no_memory) (aligned_alloc env_no_memory 5) 5 1 = Inl NullPointer
     \<and> measure_pair env_no_memory record_call 0 0 5 1 [] 0 = ([], Inl NullPointer)"
proof -
  have h: "\<not> alloc_ok env_no_memory" "int_div 5 1 = Inr 5" "(4::int) < 5"
    by (simp_all add: env_no_memory_def int_div_def signed_divide_int_def)
  from failed_allocation_faults [OF h, of record_call 0 0 "[]" 0] h show ?thesis by blast
qed

section \<open>Cells without samples\<close>

lemma average_empty: "average [] = (NaN, [])"
  by (simp add: average_def)

text \<open>
  Claim C7. For every grid cell with no collected samples, the aggregate is NaN, hence no
  finite value, and the text of the cell in the printed table is \<open>nan\<close>.
\<close>

theorem empty_cell_is_nan:
  assumes "i < length results" and "j < length (results ! i)" and "results ! i ! j = []"
  shows "aggregate results ! i ! j = NaN
           \<and> (\<forall>x. aggregate results ! i ! j \<noteq> Fin x)
           \<and> cell_text (to_string fmt (aggregate results ! i ! j)) = ''nan''"
  using assms by (simp add: aggregate_def average_empty to_string_def cell_text_def)

theorem empty_cell_is_nan_witness:
  "0 < length [[[], [5, 6::int]]] \<and> 0 < length ([[[], [5, 6::int]]] ! 0) \<and> [[[], [5, 6::int]]] ! 0 ! 0 = []
     \<and> aggregate [[[], [5, 6]]] ! 0 ! 0 = NaN
     \<and> (\<forall>x. aggregate [[[], [5, 6]]] ! 0 ! 0 \<noteq> Fin x)
     \<and> cell_text (to_string (\<lambda>r. ''0.000000'') (aggregate [[[], [5, 6]]] ! 0 ! 0)) = ''nan''"
proof -
  have h: "0 < length [[[], [5, 6::int]]]" "0 < length ([[[], [5, 6::int]]] ! 0)"
    "[[[], [5, 6::int]]] ! 0 ! 0 = []"
    by simp_all
  from empty_cell_is_nan [OF h, of "\<lambda>r. ''0.000000''"] h show ?thesis by blast
qed

section \<open>Properties of the Breakpoint Heuristics and the report\<close>

lemma stride_sizes_value: "stride_sizes = Some [1, 2, 4, 8, 16, 32, 64, 128, 256]"
  by (simp add: stride_sizes_def push_doubles.simps int32_def)

lemma length_sizes_value:
  "length_sizes = Some [256, 512, 1024, 2048, 4096, 8192, 16384, 32768, 65536, 131072]"
  by (simp add: length_sizes_def push_doubles.simps int32_def)

lemma cell_in_range:
  "r < length av_result \<Longrightarrow> c < length (av_result ! r)
     \<Longrightarrow> cell av_result (int r) (int c) = Inr (av_result ! r ! c)"
  by (simp add: cell_def)

lemma find_cache_length_from_spec:
  assumes "lengths \<le> length av_result" and "\<forall>r < lengths. av_result ! r \<noteq> []" and "1 \<le> i"
  shows "(\<exists>k. i \<le> k \<and> k < lengths \<and> capacity_jump av_result k
              \<and> (\<forall>m. i \<le> m \<and> m < k \<longrightarrow> \<not> capacity_jump av_result m)
              \<and> find_cache_length_from i lengths av_result = Inr (int k - 1))
         \<or> ((\<forall>m. i \<le> m \<and> m < lengths \<longrightarrow> \<not> capacity_jump av_result m)
              \<and> find_cache_length_from i lengths av_result = Inr (- 1))"
  using assms
proof (induction i lengths av_result rule: find_cache_length_from.induct)
  case (1 i lengths av_result)
  show ?case
  proof (cases "i < lengths")
    case False
    then have "find_cache_length_from i lengths av_result = Inr (- 1)"
      by (simp add: find_cache_length_from.simps [of i])
    moreover have "\<forall>m. i \<le> m \<and> m < lengths \<longrightarrow> \<not> capacity_jump av_result m"
      using False by auto
    ultimately show ?thesis by blast
  next
    case True
    have ri: "i < length av_result" "0 < length (av_result ! i)"
      using True "1.prems" by auto
    have rp: "i - 1 < length av_result" "0 < length (av_result ! (i - 1))"
      using True "1.prems" by auto
    have a: "cell av_result (int i) 0 = Inr (av_result ! i ! 0)"
      using cell_in_range [OF ri] by simp
    have "int (i - 1) = int i - 1" using "1.prems"(3) by simp
    then have b: "cell av_result (int i - 1) 0 = Inr (av_result ! (i - 1) ! 0)"
      using cell_in_range [OF rp] by simp
    show ?thesis
    proof (cases "capacity_jump av_result i")
      case True
      then have "find_cache_length_from i lengths av_result = Inr (int i - 1)"
        using \<open>i < lengths\<close> a b
        by (simp add: find_cache_length_from.simps [of i] capacity_jump_def)
      then show ?thesis using True \<open>i < lengths\<close> by auto
    next
      case False
      then have nj: "\<not> double_gt (av_result ! i ! 0) (double_times (av_result ! (i - 1) ! 0) 1.2)"
        by (simp add: capacity_jump_def)
      have step: "find_cache_length_from i lengths av_result
                    = find_cache_length_from (Suc i) lengths av_result"
        using \<open>i < lengths\<close> a b nj by (simp add: find_cache_length_from.simps [of i])
      have m: "\<not> capacity_jump av_result m" if "i \<le> m" "m < k"
        "\<forall>m. Suc i \<le> m \<and> m < k \<longrightarrow> \<not> capacity_jump av_result m" for m k
        using that False by (cases "m = i") auto
      from "1.IH" [OF \<open>i < lengths\<close> a b nj "1.prems"(1,2)]
      show ?thesis unfolding step using m by (auto simp: Suc_le_eq)
    qed
  qed
qed


lemma find_cache_line_length_from_spec:
  assumes "r < length av_result" and "strides \<le> length (av_result ! r)" and "1 \<le> i"
    and "cache_length_idx + 1 = int r"
  shows "(\<exists>k. i \<le> k \<and> k < strides \<and> line_jump (av_result ! r) k
              \<and> (\<forall>m. i \<le> m \<and> m < k \<longrightarrow> \<not> line_jump (av_result ! r) m)
              \<and> find_cache_line_length_from i cache_length_idx strides av_result = Inr (int k))
         \<or> ((\<forall>m. i \<le> m \<and> m < strides \<longrightarrow> \<not> line_jump (av_result ! r) m)
              \<and> find_cache_line_length_from i cache_length_idx strides av_result = Inr (- 1))"
  using assms
proof (induction i cache_length_idx strides av_result rule: find_cache_line_length_from.induct)
  case (1 i cache_length_idx strides av_result)
  show ?case
  proof (cases "i < strides")
    case False
    then have "find_cache_line_length_from i cache_length_idx strides av_result = Inr (- 1)"
      by (simp add: find_cache_line_length_from.simps [of i])
    moreover have "\<forall>m. i \<le> m \<and> m < strides \<longrightarrow> \<not> line_jump (av_result ! r) m"
      using False by auto
    ultimately show ?thesis by blast
  next
    case True
    have ci: "i < length (av_result ! r)" "i - 1 < length (av_result ! r)"
      using True "1.prems" by auto
    have a: "cell av_result (cache_length_idx + 1) (int i) = Inr (av_result ! r ! i)"
      using cell_in_range [OF "1.prems"(1) ci(1)] "1.prems"(4) by simp
    have "int (i - 1) = int i - 1" using "1.prems"(3) by simp
    then have b: "cell av_result (cache_length_idx + 1) (int i - 1) = Inr (av_result ! r ! (i - 1))"
      using cell_in_range [OF "1.prems"(1) ci(2)] "1.prems"(4) by simp
    show ?thesis
    proof (cases "line_jump (av_result ! r) i")
      case True
      then have "find_cache_line_length_from i cache_length_idx strides av_result = Inr (int i)"
        using \<open>i < strides\<close> a b
        by (simp add: find_cache_line_length_from.simps [of i] line_jump_def)
      then show ?thesis using True \<open>i < strides\<close> by auto
    next
      case False
      then have nj: "\<not> double_gt (av_result ! r ! i) (double_times (av_result ! r ! (i - 1)) 1.1)"
        by (simp add: line_jump_def)
      have step: "find_cache_line_length_from i cache_length_idx strides av_result
                    = find_cache_line_length_from (Suc i) cache_length_idx strides av_result"
        using \<open>i < strides\<close> a b nj by (simp add: find_cache_line_length_from.simps [of i])
      have m: "\<not> line_jump (av_result ! r) m" if "i \<le> m" "m < k"
        "\<forall>m. Suc i \<le> m \<and> m < k \<longrightarrow> \<not> line_jump (av_result ! r) m" for m k
        using that False by (cases "m = i") auto
      from "1.IH" [OF \<open>i < strides\<close> a b nj "1.prems"(1,2) _ "1.prems"(4)]
      show ?thesis unfolding step using m by (auto simp: Suc_le_eq)
    qed
  qed
qed

section \<open>The grid and the collection phase\<close>

lemma probed_positive:
  assumes "1 \<le> len" "1 \<le> gap"
  shows "probed len gap \<longleftrightarrow> 4 < len div gap"
  using assms by (simp add: probed_def int_div_positive)

lemma measure_pair_well_behaved:
  assumes wb: "well_behaved w" and len: "1 \<le> len" "len < 2 ^ 31" and gap: "1 \<le> gap"
  shows "\<exists>acc'. measure_pair w on_result i j len gap s acc
           = (if probed len gap then on_result i j (elapsed w sdiv (len div gap)) s else s, Inr acc')"
proof (cases "probed len gap")
  case False
  then show ?thesis
    using len gap by (simp add: measure_pair_def probed_positive int_div_positive)
next
  case True
  let ?ap = "len div gap"
  have d: "int_div len gap = Inr ?ap" using len gap by (simp add: int_div_positive)
  have ap: "4 < ?ap" using True len gap by (simp add: probed_positive)
  have al: "aligned_alloc w len = Some (map (fresh w) [0..<nat len])"
    using wb len by (simp add: well_behaved_def aligned_alloc_def)
  have sh: "mset (shuffle w [1..?ap - 1]) = mset [1..?ap - 1]"
    using wb by (simp add: well_behaved_def)
  have ln: "length (map (fresh w) [0..<nat len]) = nat len" by simp
  from create_cycle_traverse_safe [where random_shuffle = "shuffle w", OF len gap d ap ln sh]
  obtain cells' where
    cc: "create_cycle (shuffle w) (Some (map (fresh w) [0..<nat len])) ?ap gap = Inr (Some cells')"
    and tr: "\<forall>steps acc. \<exists>acc'. traverse steps (Some cells') acc = Inr acc'"
    by blast
  obtain acc1 where t1: "traverse (int32 (32 * ?ap)) (Some cells') acc = Inr acc1"
    using tr by blast
  obtain acc2 where t2: "traverse (int32 (16 * ?ap)) (Some cells') acc1 = Inr acc2"
    using tr by blast
  have "measure_pair w on_result i j len gap s acc
          = (on_result i j (elapsed w sdiv ?ap) s, Inr acc2)"
    using d ap al cc t1 t2 by (simp add: measure_pair_def measure_time_def)
  then show ?thesis using True by simp
qed

lemma push_result_length [simp]: "length (push_result i j t rs) = length rs"
  by (simp add: push_result_def)

lemma push_result_row_length [simp]: "length (push_result i j t rs ! a) = length (rs ! a)"
  by (cases "i < length rs"; cases "a = i") (simp_all add: push_result_def list_update_beyond)

lemma push_result_cell:
  assumes "i < length rs" "j < length (rs ! i)"
  shows "push_result i j t rs ! a ! b = rs ! a ! b @ (if a = i \<and> b = j then [t] else [])"
  using assms by (cases "a = i"; cases "b = j") (simp_all add: push_result_def)


lemma measure_strides_samples:
  assumes "\<forall>b. well_behaved (w b)" and "1 \<le> len" and "len < 2 ^ 31" and "\<forall>g \<in> set gaps. 1 \<le> g"
    and "i < length rs" and "j0 + length gaps \<le> length (rs ! i)"
  shows "\<exists>rs' acc'. measure_strides w push_result i len j0 gaps rs acc = (rs', Inr acc')
           \<and> length rs' = length rs
           \<and> (\<forall>a. length (rs' ! a) = length (rs ! a))
           \<and> (\<forall>a b. rs' ! a ! b = rs ! a ! b
                  @ (if a = i \<and> j0 \<le> b \<and> b < j0 + length gaps \<and> probed len (gaps ! (b - j0))
                     then [elapsed (w b) sdiv (len div gaps ! (b - j0))] else []))"
  using assms
proof (induction gaps arbitrary: j0 rs acc)
  case Nil
  then show ?case by simp
next
  case (Cons gap gaps)
  have g: "1 \<le> gap" using Cons.prems(4) by simp
  have wb: "well_behaved (w j0)" using Cons.prems(1) by simp
  have j0: "j0 < length (rs ! i)" using Cons.prems(6) by simp
  define rs1 where
    "rs1 = (if probed len gap then push_result i j0 (elapsed (w j0) sdiv (len div gap)) rs else rs)"
  from measure_pair_well_behaved [OF wb Cons.prems(2,3) g, of push_result i j0 rs acc]
  obtain acc1 where mp: "measure_pair (w j0) push_result i j0 len gap rs acc = (rs1, Inr acc1)"
    unfolding rs1_def by blast
  have l1: "length rs1 = length rs" and r1: "\<And>a. length (rs1 ! a) = length (rs ! a)"
    by (simp_all add: rs1_def)
  have c1: "rs1 ! a ! b = rs ! a ! b
              @ (if a = i \<and> b = j0 \<and> probed len gap then [elapsed (w j0) sdiv (len div gap)] else [])" for a b
    using push_result_cell [OF Cons.prems(5) j0] by (simp add: rs1_def)
  have p4: "\<forall>g \<in> set gaps. 1 \<le> g" using Cons.prems(4) by simp
  have p5: "i < length rs1" using Cons.prems(5) l1 by simp
  have p6: "Suc j0 + length gaps \<le> length (rs1 ! i)" using Cons.prems(6) r1 by simp
  from Cons.IH [OF Cons.prems(1,2,3) p4 p5 p6, of acc1]
  obtain rs' acc' where
    ms: "measure_strides w push_result i len (Suc j0) gaps rs1 acc1 = (rs', Inr acc')"
    and l2: "length rs' = length rs1" and r2: "\<forall>a. length (rs' ! a) = length (rs1 ! a)"
    and c2: "\<forall>a b. rs' ! a ! b = rs1 ! a ! b
                @ (if a = i \<and> Suc j0 \<le> b \<and> b < Suc j0 + length gaps \<and> probed len (gaps ! (b - Suc j0))
                   then [elapsed (w b) sdiv (len div gaps ! (b - Suc j0))] else [])"
    by blast
  have run: "measure_strides w push_result i len j0 (gap # gaps) rs acc = (rs', Inr acc')"
    using mp ms by simp
  have cnt: "rs' ! a ! b = rs ! a ! b
               @ (if a = i \<and> j0 \<le> b \<and> b < j0 + length (gap # gaps)
                     \<and> probed len ((gap # gaps) ! (b - j0))
                  then [elapsed (w b) sdiv (len div (gap # gaps) ! (b - j0))] else [])" for a b
  proof (cases "b = j0")
    case True
    then show ?thesis using c2 c1 by simp
  next
    case False
    show ?thesis
    proof (cases "j0 < b")
      case True
      then have "(gap # gaps) ! (b - j0) = gaps ! (b - Suc j0)"
        by (metis Suc_diff_Suc nth_Cons_Suc)
      then show ?thesis using c2 c1 True False by (simp add: Suc_le_eq)
    next
      case False
      then show ?thesis using c2 c1 \<open>b \<noteq> j0\<close> by simp
    qed
  qed
  show ?case using run l1 l2 r1 r2 cnt by simp
qed

lemma measure_lengths_samples:
  assumes "\<forall>a b. well_behaved (w a b)" and "\<forall>l \<in> set lens. 1 \<le> l \<and> l < 2 ^ 31"
    and "\<forall>g \<in> set strides_v. 1 \<le> g"
    and "i0 + length lens \<le> length rs" and "\<forall>a < length rs. length (rs ! a) = length strides_v"
  shows "\<exists>rs' acc'. measure_lengths w push_result strides_v i0 lens rs acc = (rs', Inr acc')
           \<and> length rs' = length rs
           \<and> (\<forall>a. length (rs' ! a) = length (rs ! a))
           \<and> (\<forall>a b. b < length strides_v \<longrightarrow> rs' ! a ! b = rs ! a ! b
                  @ (if i0 \<le> a \<and> a < i0 + length lens \<and> probed (lens ! (a - i0)) (strides_v ! b)
                     then [elapsed (w a b) sdiv (lens ! (a - i0) div strides_v ! b)] else []))"
  using assms
proof (induction lens arbitrary: i0 rs acc)
  case Nil
  then show ?case by simp
next
  case (Cons len lens)
  have len: "1 \<le> len" "len < 2 ^ 31" using Cons.prems(2) by simp_all
  have wb: "\<forall>b. well_behaved (w i0 b)" using Cons.prems(1) by simp
  have i0: "i0 < length rs" using Cons.prems(4) by simp
  have row: "0 + length strides_v \<le> length (rs ! i0)" using Cons.prems(5) i0 by simp
  from measure_strides_samples [OF wb len Cons.prems(3) i0 row, of acc]
  obtain rs1 acc1 where
    ms: "measure_strides (w i0) push_result i0 len 0 strides_v rs acc = (rs1, Inr acc1)"
    and l1: "length rs1 = length rs" and r1: "\<forall>a. length (rs1 ! a) = length (rs ! a)"
    and c1: "\<forall>a b. rs1 ! a ! b = rs ! a ! b
                @ (if a = i0 \<and> 0 \<le> b \<and> b < 0 + length strides_v \<and> probed len (strides_v ! (b - 0))
                   then [elapsed (w i0 b) sdiv (len div strides_v ! (b - 0))] else [])"
    by blast
  have p2: "\<forall>l \<in> set lens. 1 \<le> l \<and> l < 2 ^ 31" using Cons.prems(2) by simp
  have p4: "Suc i0 + length lens \<le> length rs1" using Cons.prems(4) l1 by simp
  have p5: "\<forall>a < length rs1. length (rs1 ! a) = length strides_v" using Cons.prems(5) l1 r1 by simp
  from Cons.IH [OF Cons.prems(1) p2 Cons.prems(3) p4 p5, of acc1]
  obtain rs' acc' where
    ml: "measure_lengths w push_result strides_v (Suc i0) lens rs1 acc1 = (rs', Inr acc')"
    and l2: "length rs' = length rs1" and r2: "\<forall>a. length (rs' ! a) = length (rs1 ! a)"
    and c2: "\<forall>a b. b < length strides_v \<longrightarrow> rs' ! a ! b = rs1 ! a ! b
                @ (if Suc i0 \<le> a \<and> a < Suc i0 + length lens \<and> probed (lens ! (a - Suc i0)) (strides_v ! b)
                   then [elapsed (w a b) sdiv (lens ! (a - Suc i0) div strides_v ! b)] else [])"
    by blast
  have run: "measure_lengths w push_result strides_v i0 (len # lens) rs acc = (rs', Inr acc')"
    using ms ml by simp
  have cnt: "rs' ! a ! b = rs ! a ! b
               @ (if i0 \<le> a \<and> a < i0 + length (len # lens)
                     \<and> probed ((len # lens) ! (a - i0)) (strides_v ! b)
                  then [elapsed (w a b) sdiv ((len # lens) ! (a - i0) div strides_v ! b)] else [])"
    if b: "b < length strides_v" for a b
  proof (cases "a = i0")
    case True
    then show ?thesis using c2 c1 b by simp
  next
    case False
    show ?thesis
    proof (cases "i0 < a")
      case True
      then have "(len # lens) ! (a - i0) = lens ! (a - Suc i0)"
        by (metis Suc_diff_Suc nth_Cons_Suc)
      then show ?thesis using c2 c1 b True False by (simp add: Suc_le_eq)
    next
      case False
      then show ?thesis using c2 c1 b \<open>a \<noteq> i0\<close> by simp
    qed
  qed
  show ?case using run l1 l2 r1 r2 cnt by simp
qed

lemma trials_samples:
  assumes "\<forall>t a b. well_behaved (world t a b)" and "\<forall>l \<in> set lengths_v. 1 \<le> l \<and> l < 2 ^ 31"
    and "\<forall>g \<in> set strides_v. 1 \<le> g"
    and "length rs = length lengths_v" and "\<forall>a < length rs. length (rs ! a) = length strides_v"
  shows "\<exists>rs'. trials n t world strides_v lengths_v rs = (rs', None)
           \<and> length rs' = length rs
           \<and> (\<forall>a. length (rs' ! a) = length (rs ! a))
           \<and> (\<forall>a b. a < length lengths_v \<and> b < length strides_v \<longrightarrow>
                  rs' ! a ! b = rs ! a ! b
                    @ (if probed (lengths_v ! a) (strides_v ! b)
                       then map (\<lambda>k. elapsed (world k a b) sdiv (lengths_v ! a div strides_v ! b)) [t..<t + n]
                       else []))"
  using assms(4,5)
proof (induction n arbitrary: t rs)
  case 0
  then show ?case by simp
next
  case (Suc n)
  have wb: "\<forall>a b. well_behaved (world t a b)" using assms(1) by simp
  have fit: "0 + length lengths_v \<le> length rs" using Suc.prems(1) by simp
  from measure_lengths_samples [OF wb assms(2,3) fit Suc.prems(2), of 0]
  obtain rs1 acc1 where
    ml: "measure_all (world t) strides_v lengths_v push_result rs = (rs1, Inr acc1)"
    and l1: "length rs1 = length rs" and r1: "\<forall>a. length (rs1 ! a) = length (rs ! a)"
    and c1: "\<forall>a b. b < length strides_v \<longrightarrow> rs1 ! a ! b = rs ! a ! b
                @ (if 0 \<le> a \<and> a < 0 + length lengths_v \<and> probed (lengths_v ! (a - 0)) (strides_v ! b)
                   then [elapsed (world t a b) sdiv (lengths_v ! (a - 0) div strides_v ! b)] else [])"
    unfolding measure_all_def by blast
  have p1: "length rs1 = length lengths_v" using Suc.prems(1) l1 by simp
  have p2: "\<forall>a < length rs1. length (rs1 ! a) = length strides_v" using Suc.prems(2) l1 r1 by simp
  from Suc.IH [OF p1 p2, of "Suc t"]
  obtain rs' where
    tr: "trials n (Suc t) world strides_v lengths_v rs1 = (rs', None)"
    and l2: "length rs' = length rs1" and r2: "\<forall>a. length (rs' ! a) = length (rs1 ! a)"
    and c2: "\<forall>a b. a < length lengths_v \<and> b < length strides_v \<longrightarrow>
                rs' ! a ! b = rs1 ! a ! b
                  @ (if probed (lengths_v ! a) (strides_v ! b)
                     then map (\<lambda>k. elapsed (world k a b) sdiv (lengths_v ! a div strides_v ! b)) [Suc t..<Suc t + n]
                     else [])"
    by blast
  have run: "trials (Suc n) t world strides_v lengths_v rs = (rs', None)"
    using ml tr by simp
  have up: "[t..<t + Suc n] = t # [Suc t..<Suc t + n]" by (simp add: upt_conv_Cons)
  show ?case using run l1 l2 r1 r2 c1 c2 unfolding up by simp
qed

lemma collect_samples:
  assumes "\<forall>t a b. well_behaved (world t a b)" and "\<forall>l \<in> set lengths_v. 1 \<le> l \<and> l < 2 ^ 31"
    and "\<forall>g \<in> set strides_v. 1 \<le> g"
  shows "snd (collect world strides_v lengths_v) = None
           \<and> length (fst (collect world strides_v lengths_v)) = length lengths_v
           \<and> (\<forall>a < length lengths_v. length (fst (collect world strides_v lengths_v) ! a) = length strides_v)
           \<and> (\<forall>a b. a < length lengths_v \<and> b < length strides_v \<longrightarrow>
                  fst (collect world strides_v lengths_v) ! a ! b
                    = (if probed (lengths_v ! a) (strides_v ! b)
                       then map (\<lambda>k. elapsed (world k a b) sdiv (lengths_v ! a div strides_v ! b)) [0..<100]
                       else []))"
proof -
  let ?rs = "replicate (length lengths_v) (replicate (length strides_v) ([]::int list))"
  have s1: "length ?rs = length lengths_v" by simp
  have s2: "\<forall>a < length ?rs. length (?rs ! a) = length strides_v" by simp
  from trials_samples [OF assms s1 s2, of 100 0]
  obtain rs' where
    tr: "trials 100 0 world strides_v lengths_v ?rs = (rs', None)"
    and l: "length rs' = length ?rs" and r: "\<forall>a. length (rs' ! a) = length (?rs ! a)"
    and c: "\<forall>a b. a < length lengths_v \<and> b < length strides_v \<longrightarrow>
               rs' ! a ! b = ?rs ! a ! b
                 @ (if probed (lengths_v ! a) (strides_v ! b)
                    then map (\<lambda>k. elapsed (world k a b) sdiv (lengths_v ! a div strides_v ! b)) [0..<0 + 100]
                    else [])"
    by blast
  have cl: "collect world strides_v lengths_v = (rs', None)" using tr by (simp add: collect_def)
  show ?thesis unfolding cl using l r c by simp
qed


lemma average_replicate:
  assumes "2 \<le> T" and "0 \<le> c" and "c < 2 ^ 32" and "T \<le> 2 ^ 20"
  shows "fst (average (replicate T c)) = Fin (real_of_int c)"
proof -
  let ?k = "(4 * T) div 5"
  have srt: "sort (replicate T c) = replicate T c"
    by (metis sorted_replicate sorted_sort_id)
  have kT: "?k \<le> T" by simp
  then have tk: "take ?k (sort (replicate T c)) = replicate ?k c" by (simp add: srt min_def)
  have sm: "sum_list (take ?k (sort (replicate T c))) = int ?k * c"
    unfolding tk by (simp add: sum_list_replicate)
  have "?k \<le> 2 ^ 20" using kT assms(4) by (rule le_trans)
  then have "int ?k \<le> int (2 ^ 20)" by (simp only: of_nat_le_iff)
  then have "int ?k \<le> 2 ^ 20" by simp
  then have "int ?k * c \<le> 2 ^ 20 * 2 ^ 32"
    using assms(2,3) by (intro mult_mono) simp_all
  moreover have "0 \<le> int ?k * c" using assms(2) by simp
  ultimately have S: "\<bar>sum_list (take ?k (sort (replicate T c)))\<bar> \<le> 2 ^ 53"
    unfolding sm by simp
  have T2: "2 \<le> length (replicate T c)" using assms(1) by simp
  have "T < 2 ^ 31" using assms(4) by (rule le_less_trans) simp
  then have T31: "length (replicate T c) < 2 ^ 31" by simp
  have keq: "?k = (4 * length (replicate T c)) div 5" by simp
  from average_bounds [OF T2 T31 keq S]
  obtain a where a: "fst (average (replicate T c)) = Fin a"
    "\<forall>v. replicate T c = replicate (length (replicate T c)) v \<longrightarrow> a = real_of_int v"
    by auto
  from a(2) have "a = real_of_int c" by simp
  then show ?thesis using a(1) by simp
qed

lemma well_behaved_steady_world: "well_behaved (steady_world latency t i j)"
  by (simp add: well_behaved_def steady_world_def)

lemma grid_positive:
  "\<forall>l \<in> set grid_lengths. 1 \<le> l \<and> l < 2 ^ 31" "\<forall>g \<in> set grid_strides. 1 \<le> g"
  by (simp_all add: grid_lengths_def grid_strides_def)

lemma aggregate_steady_world:
  assumes "\<forall>i j. 0 \<le> latency i j \<and> latency i j < 2 ^ 32"
  shows "collect (steady_world latency) grid_strides grid_lengths
           = (fst (collect (steady_world latency) grid_strides grid_lengths), None)"
    and "aggregate (fst (collect (steady_world latency) grid_strides grid_lengths)) = grid_table latency"
proof -
  let ?rs = "fst (collect (steady_world latency) grid_strides grid_lengths)"
  have wb: "\<forall>t a b. well_behaved (steady_world latency t a b)"
    by (simp add: well_behaved_steady_world)
  from collect_samples [OF wb grid_positive]
  have nf: "snd (collect (steady_world latency) grid_strides grid_lengths) = None"
    and l: "length ?rs = length grid_lengths"
    and r: "\<forall>a < length grid_lengths. length (?rs ! a) = length grid_strides"
    and c: "\<forall>a b. a < length grid_lengths \<and> b < length grid_strides \<longrightarrow>
               ?rs ! a ! b
                 = (if probed (grid_lengths ! a) (grid_strides ! b)
                    then map (\<lambda>k. elapsed (steady_world latency k a b)
                                     sdiv (grid_lengths ! a div grid_strides ! b)) [0..<100]
                    else [])"
    by blast+
  show "collect (steady_world latency) grid_strides grid_lengths = (?rs, None)"
    using nf by (metis prod.collapse)
  have cellv: "fst (average (?rs ! a ! b))
                 = (if probed (grid_lengths ! a) (grid_strides ! b)
                    then Fin (of_int (latency a b)) else NaN)"
    if ab: "a < length grid_lengths" "b < length grid_strides" for a b
  proof (cases "probed (grid_lengths ! a) (grid_strides ! b)")
    case False
    then show ?thesis using c ab by (simp add: average_empty)
  next
    case True
    have la: "1 \<le> grid_lengths ! a" using grid_positive(1) ab(1) by (metis nth_mem)
    have gb: "1 \<le> grid_strides ! b" using grid_positive(2) ab(2) by (metis nth_mem)
    have ap: "1 \<le> grid_lengths ! a div grid_strides ! b"
      using True la gb by (simp add: probed_positive)
    have "elapsed (steady_world latency k a b) sdiv (grid_lengths ! a div grid_strides ! b)
            = latency a b" for k
      using sdiv_mult_cancel [OF ap, of "latency a b"] assms by (simp add: steady_world_def)
    then have "?rs ! a ! b = replicate 100 (latency a b)"
      using c ab True by (simp add: map_replicate_const)
    then show ?thesis
      using True assms by (simp add: average_replicate)
  qed
  show "aggregate ?rs = grid_table latency"
  proof (rule nth_equalityI)
    show "length (aggregate ?rs) = length (grid_table latency)"
      using l by (simp add: aggregate_def grid_table_def)
  next
    fix a assume "a < length (aggregate ?rs)"
    then have a: "a < length grid_lengths" using l by (simp add: aggregate_def)
    show "aggregate ?rs ! a = grid_table latency ! a"
    proof (rule nth_equalityI)
      show "length (aggregate ?rs ! a) = length (grid_table latency ! a)"
        using a l r by (simp add: aggregate_def grid_table_def)
    next
      fix b assume "b < length (aggregate ?rs ! a)"
      then have b: "b < length grid_strides" using a l r by (simp add: aggregate_def)
      show "aggregate ?rs ! a ! b = grid_table latency ! a ! b"
        using a b l r cellv [OF a b] by (simp add: aggregate_def grid_table_def)
    qed
  qed
qed

lemma main_program_steady_world:
  assumes "\<forall>i j. 0 \<le> latency i j \<and> latency i j < 2 ^ 32"
  shows "main_program (steady_world latency)
           = (case report grid_strides grid_lengths (grid_table latency) of
                Inl e \<Rightarrow> Some (Inl e)
              | Inr ls \<Rightarrow> Some (Inr (grid_table latency, ls)))"
proof -
  have s: "stride_sizes = Some grid_strides" "length_sizes = Some grid_lengths"
    by (simp_all add: stride_sizes_value length_sizes_value grid_strides_def grid_lengths_def)
  note a = aggregate_steady_world [OF assms]
  have "main_program (steady_world latency)
          = (case (fst (collect (steady_world latency) grid_strides grid_lengths), None :: fault option) of
               (results, Some e) \<Rightarrow> Some (Inl e)
             | (results, None) \<Rightarrow>
                 (let av_result = aggregate results in
                  case report grid_strides grid_lengths av_result of
                    Inl e \<Rightarrow> Some (Inl e)
                  | Inr ls \<Rightarrow> Some (Inr (av_result, ls))))"
    unfolding main_program_def s using a(1) by simp
  then show ?thesis by (simp add: a(2) Let_def)
qed

text \<open>
  Claim C2, as stated, fails: each grid loop pushes one more doubling after its bound is
  reached, so the strides end at 256 and the lengths at 131072.
\<close>

theorem grid_ends_past_bounds:
  "map_option last stride_sizes = Some 256 \<and> map_option last length_sizes = Some 131072
     \<and> stride_sizes \<noteq> Some [1, 2, 4, 8, 16, 32, 64, 128]
     \<and> length_sizes \<noteq> Some [256, 512, 1024, 2048, 4096, 8192, 16384, 32768, 65536]"
  by (simp add: stride_sizes_value length_sizes_value)

text \<open>
  Claim C2, amended. The stride sizes are the powers of two from 1 up to and including 256,
  the length sizes the powers of two from 256 up to and including 131072, and \<open>measure\<close> is
  run 100 times over this grid: in every environment where the allocations succeed and the
  shuffles are rearrangements, the collection phase completes without a fault, and a cell
  holds exactly 100 samples when its pair is not skipped and none when it is.
\<close>

theorem grid_and_trials:
  assumes "\<forall>t a b. well_behaved (world t a b)"
  shows "stride_sizes = Some [1, 2, 4, 8, 16, 32, 64, 128, 256]
           \<and> length_sizes = Some [256, 512, 1024, 2048, 4096, 8192, 16384, 32768, 65536, 131072]
           \<and> snd (collect world grid_strides grid_lengths) = None
           \<and> (\<forall>a b. a < length grid_lengths \<and> b < length grid_strides \<longrightarrow>
                  length (fst (collect world grid_strides grid_lengths) ! a ! b)
                    = (if probed (grid_lengths ! a) (grid_strides ! b) then 100 else 0))"
proof -
  from collect_samples [OF assms grid_positive] show ?thesis
    by (simp add: stride_sizes_value length_sizes_value)
qed

theorem grid_and_trials_witness:
  "well_behaved env0
     \<and> stride_sizes = Some grid_strides \<and> length_sizes = Some grid_lengths
     \<and> snd (collect (\<lambda>t a b. env0) grid_strides grid_lengths) = None
     \<and> length (fst (collect (\<lambda>t a b. env0) grid_strides grid_lengths) ! 0 ! 0) = 100
     \<and> length (fst (collect (\<lambda>t a b. env0) grid_strides grid_lengths) ! 0 ! 8) = 0"
proof -
  have wb: "well_behaved env0" by (simp add: well_behaved_def env0_def)
  then have h: "\<forall>t a b. well_behaved ((\<lambda>t a b. env0) t a b)" by simp
  have p: "probed (grid_lengths ! 0) (grid_strides ! 0)" "\<not> probed (grid_lengths ! 0) (grid_strides ! 8)"
    "0 < length grid_lengths" "0 < length grid_strides" "8 < length grid_strides"
    by (simp_all add: grid_lengths_def grid_strides_def probed_def int_div_def signed_divide_int_def)
  from grid_and_trials [OF h] wb p show ?thesis
    by (simp add: grid_lengths_def [symmetric] grid_strides_def [symmetric])
qed

section \<open>The report of a whole run\<close>

lemma latency_bounds:
  "\<forall>i j. 0 \<le> late_jump i j \<and> late_jump i j < 2 ^ 32"
  "\<forall>i j. 0 \<le> flat_capacity i j \<and> flat_capacity i j < 2 ^ 32"
  by (simp_all add: late_jump_def flat_capacity_def)

lemma report_late_jump_grid:
  "report grid_strides grid_lengths late_jump_grid
     = Inr [CacheLengthNotFound, CacheLineLengthNotFound, AssociativityNotImplemented]"
  by code_simp

lemma report_flat_capacity_grid:
  "report grid_strides grid_lengths flat_capacity_grid
     = Inr [CacheLengthNotFound, CacheLineLength 8, AssociativityNotImplemented]"
  by code_simp

lemma scans_late_jump_grid:
  "capacity_jump late_jump_grid 9"
  "find_cache_length (length grid_lengths) late_jump_grid = Inr 8"
  "find_cache_length (length grid_strides) late_jump_grid = Inr (- 1)"
  by code_simp+

lemma scans_flat_capacity_grid:
  "find_cache_length (length grid_strides) flat_capacity_grid = Inr (- 1)"
  "0 < length flat_capacity_grid"
  "length grid_strides \<le> length (flat_capacity_grid ! 0)"
  "line_jump (flat_capacity_grid ! 0) 1"
  by code_simp+

text \<open>
  Claim C5 fails on the code. \<open>main\<close> passes the number of strides, 9, where
  \<open>find_cache_length\<close> expects the number of lengths, 10, so the last length is never
  compared. In a run where every probe takes 1 tick per step up to length 65536 and 2 ticks
  per step at length 131072, the only jump above the threshold is at length index 9: the
  scan over all ten lengths returns index 8, the length 65536, while the program reports
  that the cache length was not found.
\<close>

theorem capacity_scan_misses_last_length:
  "main_program (steady_world late_jump)
       = Some (Inr (late_jump_grid,
                    [CacheLengthNotFound, CacheLineLengthNotFound, AssociativityNotImplemented]))
     \<and> capacity_jump late_jump_grid 9
     \<and> find_cache_length (length grid_lengths) late_jump_grid = Inr 8
     \<and> find_cache_length (length grid_strides) late_jump_grid = Inr (- 1)"
  using main_program_steady_world [OF latency_bounds(1)] report_late_jump_grid scans_late_jump_grid
  by (simp add: late_jump_grid_def)

text \<open>
  Claim C3, as stated, fails. In a run where the latency at the smallest stride is the
  same for all lengths, no capacity breakpoint is found, and the program still runs the
  line-size scan, on the row of the smallest length: that row jumps from the first stride
  to the second, and a line size of 8 bytes is reported from it.
\<close>

theorem line_scan_runs_without_capacity:
  "main_program (steady_world flat_capacity)
       = Some (Inr (flat_capacity_grid,
                    [CacheLengthNotFound, CacheLineLength 8, AssociativityNotImplemented]))
     \<and> find_cache_length (length grid_strides) flat_capacity_grid = Inr (- 1)
     \<and> line_jump (flat_capacity_grid ! 0) 1"
  using main_program_steady_world [OF latency_bounds(2)] report_flat_capacity_grid
    scans_flat_capacity_grid
  by (simp add: flat_capacity_grid_def)

text \<open>
  Claim C3, amended. When the capacity scan returns \<open>-1\<close>, the program prints that the
  cache length was not found and runs the line-size scan on row \<open>-1 + 1 = 0\<close>, the smallest
  length: it reports four times the stride at the least index \<open>k \<ge> 1\<close> with a line-size
  jump in that row, or that the line length was not found when the row has no such jump.
\<close>

theorem report_without_capacity:
  assumes "find_cache_length (length strides_v) av_result = Inr (- 1)"
    and "0 < length av_result" and "length strides_v \<le> length (av_result ! 0)"
  shows "(\<exists>k. 1 \<le> k \<and> k < length strides_v \<and> line_jump (av_result ! 0) k
              \<and> (\<forall>m. 1 \<le> m \<and> m < k \<longrightarrow> \<not> line_jump (av_result ! 0) m)
              \<and> report strides_v lengths_v av_result
                  = Inr [CacheLengthNotFound, CacheLineLength (strides_v ! k * 4),
                         AssociativityNotImplemented])
         \<or> ((\<forall>m. 1 \<le> m \<and> m < length strides_v \<longrightarrow> \<not> line_jump (av_result ! 0) m)
              \<and> report strides_v lengths_v av_result
                  = Inr [CacheLengthNotFound, CacheLineLengthNotFound, AssociativityNotImplemented])"
proof -
  from find_cache_line_length_from_spec [OF assms(2,3), of 1 "- 1"]
  have scan:
    "(\<exists>k. 1 \<le> k \<and> k < length strides_v \<and> line_jump (av_result ! 0) k
         \<and> (\<forall>m. 1 \<le> m \<and> m < k \<longrightarrow> \<not> line_jump (av_result ! 0) m)
         \<and> find_cache_line_length (- 1) (length strides_v) av_result = Inr (int k))
     \<or> ((\<forall>m. 1 \<le> m \<and> m < length strides_v \<longrightarrow> \<not> line_jump (av_result ! 0) m)
         \<and> find_cache_line_length (- 1) (length strides_v) av_result = Inr (- 1))"
    by (simp add: find_cache_line_length_def)
  then show ?thesis
  proof
    assume "\<exists>k. 1 \<le> k \<and> k < length strides_v \<and> line_jump (av_result ! 0) k
         \<and> (\<forall>m. 1 \<le> m \<and> m < k \<longrightarrow> \<not> line_jump (av_result ! 0) m)
         \<and> find_cache_line_length (- 1) (length strides_v) av_result = Inr (int k)"
    then obtain k where k: "1 \<le> k" "k < length strides_v" "line_jump (av_result ! 0) k"
      "\<forall>m. 1 \<le> m \<and> m < k \<longrightarrow> \<not> line_jump (av_result ! 0) m"
      "find_cache_line_length (- 1) (length strides_v) av_result = Inr (int k)"
      by blast
    have "report strides_v lengths_v av_result
            = Inr [CacheLengthNotFound, CacheLineLength (strides_v ! k * 4), AssociativityNotImplemented]"
      using assms(1) k(1,2,5) by (simp add: report_def at_index_def)
    then show ?thesis using k by blast
  next
    assume "(\<forall>m. 1 \<le> m \<and> m < length strides_v \<longrightarrow> \<not> line_jump (av_result ! 0) m)
         \<and> find_cache_line_length (- 1) (length strides_v) av_result = Inr (- 1)"
    then show ?thesis using assms(1) by (simp add: report_def)
  qed
qed

theorem report_without_capacity_witness:
  "find_cache_length (length grid_strides) flat_capacity_grid = Inr (- 1)
     \<and> 0 < length flat_capacity_grid \<and> length grid_strides \<le> length (flat_capacity_grid ! 0)
     \<and> ((\<exists>k. 1 \<le> k \<and> k < length grid_strides \<and> line_jump (flat_capacity_grid ! 0) k
              \<and> (\<forall>m. 1 \<le> m \<and> m < k \<longrightarrow> \<not> line_jump (flat_capacity_grid ! 0) m)
              \<and> report grid_strides grid_lengths flat_capacity_grid
                  = Inr [CacheLengthNotFound, CacheLineLength (grid_strides ! k * 4),
                         AssociativityNotImplemented])
         \<or> ((\<forall>m. 1 \<le> m \<and> m < length grid_strides \<longrightarrow> \<not> line_jump (flat_capacity_grid ! 0) m)
              \<and> report grid_strides grid_lengths flat_capacity_grid
                  = Inr [CacheLengthNotFound, CacheLineLengthNotFound, AssociativityNotImplemented]))"
proof -
  note h = scans_flat_capacity_grid(1,2,3)
  from report_without_capacity [OF h, of grid_lengths] h show ?thesis by blast
qed

end
